theory Spec2Isabelle
  imports Complex_Main "HOL-Library.Word"
begin

section \<open>JavaScript numbers\<close>

text \<open>
  The filters compute on JavaScript numbers, which are IEEE 754 binary64 values: a finite
  value, one of the two infinities, or \<open>NaN\<close>. A finite value is carried as the real
  number it denotes. Every addition, subtraction, multiplication and division rounds its
  exact result to the nearest binary64 value, a tie going to the even significand, and
  overflows to an infinity; so does the reading of a decimal literal. The sign of zero
  is not modelled: a zero divisor is taken as \<open>+0\<close>, which is what the zero divisors of
  the code below are.
\<close>

datatype jsnum = Fin real | PInf | NInf | NaN

text \<open>Rounding to the nearest integer, a tie going to the even one.\<close>

definition round_half_even :: "real \<Rightarrow> int" where
  "round_half_even a =
     (let f = \<lfloor>a\<rfloor>; d = a - of_int f
      in if d < 1 / 2 then f else if 1 / 2 < d then f + 1 else if even f then f else f + 1)"

text \<open>
  Binary64 has 52 fraction bits and exponents from \<open>-1022\<close>; below \<open>2^-1022\<close> the spacing
  stays that of the smallest exponent (the subnormal numbers). \<open>b64_ulp x\<close> is the spacing
  of the binary64 values around \<open>x\<close>, \<open>b64_nearest x\<close> the multiple of it nearest to \<open>x\<close>,
  and \<open>b64_round\<close> adds the overflow: from \<open>2^1024\<close> on the result is an infinity.
\<close>

definition b64_exponent :: "real \<Rightarrow> int" where
  "b64_exponent x = (if x = 0 then - 1022 else max (- 1022) \<lfloor>log 2 \<bar>x\<bar>\<rfloor>)"

definition b64_ulp :: "real \<Rightarrow> real" where
  "b64_ulp x = 2 powi (b64_exponent x - 52)"

definition b64_nearest :: "real \<Rightarrow> real" where
  "b64_nearest x = b64_ulp x * of_int (round_half_even (x / b64_ulp x))"

definition b64_round :: "real \<Rightarrow> jsnum" where
  "b64_round x =
     (let y = b64_nearest x
      in if 2 ^ 1024 \<le> y then PInf else if y \<le> - (2 ^ 1024) then NInf else Fin y)"

definition inf_of_sign :: "real \<Rightarrow> jsnum" where
  "inf_of_sign s = (if 0 < s then PInf else if s < 0 then NInf else NaN)"

instantiation jsnum :: "{zero, one, plus, minus, uminus, times, inverse}"
begin

definition zero_jsnum :: jsnum where
  "zero_jsnum = Fin 0"

definition one_jsnum :: jsnum where
  "one_jsnum = Fin 1"

fun plus_jsnum :: "jsnum \<Rightarrow> jsnum \<Rightarrow> jsnum" where
  "plus_jsnum (Fin a) (Fin b) = b64_round (a + b)"
| "plus_jsnum NaN _ = NaN"
| "plus_jsnum _ NaN = NaN"
| "plus_jsnum PInf NInf = NaN"
| "plus_jsnum NInf PInf = NaN"
| "plus_jsnum PInf _ = PInf"
| "plus_jsnum _ PInf = PInf"
| "plus_jsnum NInf _ = NInf"
| "plus_jsnum _ NInf = NInf"

fun uminus_jsnum :: "jsnum \<Rightarrow> jsnum" where
  "uminus_jsnum (Fin a) = Fin (- a)"
| "uminus_jsnum PInf = NInf"
| "uminus_jsnum NInf = PInf"
| "uminus_jsnum NaN = NaN"

definition minus_jsnum :: "jsnum \<Rightarrow> jsnum \<Rightarrow> jsnum" where
  "minus_jsnum a b = a + (- b)"

fun times_jsnum :: "jsnum \<Rightarrow> jsnum \<Rightarrow> jsnum" where
  "times_jsnum (Fin a) (Fin b) = b64_round (a * b)"
| "times_jsnum NaN _ = NaN"
| "times_jsnum _ NaN = NaN"
| "times_jsnum PInf (Fin b) = inf_of_sign b"
| "times_jsnum (Fin a) PInf = inf_of_sign a"
| "times_jsnum NInf (Fin b) = inf_of_sign (- b)"
| "times_jsnum (Fin a) NInf = inf_of_sign (- a)"
| "times_jsnum PInf PInf = PInf"
| "times_jsnum PInf NInf = NInf"
| "times_jsnum NInf PInf = NInf"
| "times_jsnum NInf NInf = PInf"

fun divide_jsnum :: "jsnum \<Rightarrow> jsnum \<Rightarrow> jsnum" where
  "divide_jsnum (Fin a) (Fin b) = (if b = 0 then inf_of_sign a else b64_round (a / b))"
| "divide_jsnum NaN _ = NaN"
| "divide_jsnum _ NaN = NaN"
| "divide_jsnum (Fin a) PInf = Fin 0"
| "divide_jsnum (Fin a) NInf = Fin 0"
| "divide_jsnum PInf (Fin b) = (if b < 0 then NInf else PInf)"
| "divide_jsnum NInf (Fin b) = (if b < 0 then PInf else NInf)"
| "divide_jsnum _ _ = NaN"

fun inverse_jsnum :: "jsnum \<Rightarrow> jsnum" where
  "inverse_jsnum (Fin a) = (if a = 0 then PInf else b64_round (1 / a))"
| "inverse_jsnum NaN = NaN"
| "inverse_jsnum _ = Fin 0"

instance ..

end

text \<open>Comparison and strict equality: every comparison with \<open>NaN\<close> is false.\<close>

fun js_less :: "jsnum \<Rightarrow> jsnum \<Rightarrow> bool" where
  "js_less (Fin a) (Fin b) = (a < b)"
| "js_less NaN _ = False"
| "js_less _ NaN = False"
| "js_less _ NInf = False"
| "js_less PInf _ = False"
| "js_less NInf _ = True"
| "js_less _ PInf = True"

definition js_greater :: "jsnum \<Rightarrow> jsnum \<Rightarrow> bool" where
  "js_greater a b = js_less b a"

definition js_strict_eq :: "jsnum \<Rightarrow> jsnum \<Rightarrow> bool" where
  "js_strict_eq a b = (a \<noteq> NaN \<and> b \<noteq> NaN \<and> a = b)"

text \<open>A number is falsy when it is zero or \<open>NaN\<close>.\<close>

definition falsy :: "jsnum \<Rightarrow> bool" where
  "falsy a = (a = Fin 0 \<or> a = NaN)"

text \<open>A decimal literal of the source denotes the binary64 value nearest to it.\<close>

definition js_literal :: "real \<Rightarrow> jsnum" where
  "js_literal x = b64_round x"

subsection \<open>The \<open>Math\<close> functions and the remainder operator\<close>

text \<open>
  Negation, absolute value, minimum, maximum, floor, ceiling and \<open>Math.round\<close> are exact
  on binary64 values. \<open>Math.exp\<close> is taken as the correctly rounded exponential.
\<close>

definition Math_max :: "jsnum \<Rightarrow> jsnum \<Rightarrow> jsnum" where
  "Math_max a b = (if a = NaN \<or> b = NaN then NaN else if js_less a b then b else a)"

definition Math_min :: "jsnum \<Rightarrow> jsnum \<Rightarrow> jsnum" where
  "Math_min a b = (if a = NaN \<or> b = NaN then NaN else if js_less b a then b else a)"

definition Math_max3 :: "jsnum \<Rightarrow> jsnum \<Rightarrow> jsnum \<Rightarrow> jsnum" where
  "Math_max3 a b c = Math_max (Math_max a b) c"

definition Math_min3 :: "jsnum \<Rightarrow> jsnum \<Rightarrow> jsnum \<Rightarrow> jsnum" where
  "Math_min3 a b c = Math_min (Math_min a b) c"

fun Math_floor :: "jsnum \<Rightarrow> jsnum" where
  "Math_floor (Fin a) = Fin (of_int \<lfloor>a\<rfloor>)"
| "Math_floor v = v"

fun Math_ceil :: "jsnum \<Rightarrow> jsnum" where
  "Math_ceil (Fin a) = Fin (of_int \<lceil>a\<rceil>)"
| "Math_ceil v = v"

fun Math_round :: "jsnum \<Rightarrow> jsnum" where
  "Math_round (Fin a) = Fin (of_int \<lfloor>a + 1 / 2\<rfloor>)"
| "Math_round v = v"

fun Math_abs :: "jsnum \<Rightarrow> jsnum" where
  "Math_abs (Fin a) = Fin \<bar>a\<bar>"
| "Math_abs NaN = NaN"
| "Math_abs _ = PInf"

fun Math_exp :: "jsnum \<Rightarrow> jsnum" where
  "Math_exp (Fin a) = b64_round (exp a)"
| "Math_exp PInf = PInf"
| "Math_exp NInf = Fin 0"
| "Math_exp NaN = NaN"

text \<open>\<open>Math.PI\<close> is the binary64 value nearest to \<open>\<pi>\<close>.\<close>

definition Math_PI :: jsnum where
  "Math_PI = Fin (884279719003555 / 2 ^ 48)"

text \<open>
  The operator \<open>%\<close> truncates the quotient towards zero, so the result has the sign of the
  dividend. The remainder of two binary64 values is a binary64 value: it is not rounded.
\<close>

definition trunc :: "real \<Rightarrow> int" where
  "trunc a = (if 0 \<le> a then \<lfloor>a\<rfloor> else - \<lfloor>- a\<rfloor>)"

fun js_rem :: "jsnum \<Rightarrow> jsnum \<Rightarrow> jsnum" where
  "js_rem (Fin a) (Fin b) = (if b = 0 then NaN else Fin (a - b * of_int (trunc (a / b))))"
| "js_rem (Fin a) PInf = Fin a"
| "js_rem (Fin a) NInf = Fin a"
| "js_rem _ _ = NaN"

text \<open>What the code can throw.\<close>

datatype error = CanvasContextError | RangeError | ImageDataError

subsection \<open>Clamped byte arrays\<close>

text \<open>
  A \<open>Uint8ClampedArray\<close> holds bytes. A number stored into it is clamped to \<open>0..255\<close> and
  rounded to the nearest integer, a tie going to the even one; \<open>NaN\<close> is stored as 0. A
  store outside the array is ignored. A read outside the array gives \<open>undefined\<close>, which
  every arithmetic use below turns into \<open>NaN\<close>.
\<close>

type_synonym byte = "8 word"

fun toUint8Clamp :: "jsnum \<Rightarrow> byte" where
  "toUint8Clamp (Fin a) =
     (if a \<le> 0 then 0 else if 255 \<le> a then 255 else word_of_int (round_half_even a))"
| "toUint8Clamp PInf = 255"
| "toUint8Clamp NInf = 0"
| "toUint8Clamp NaN = 0"

definition rd :: "byte list \<Rightarrow> nat \<Rightarrow> jsnum" where
  "rd d i = (if i < length d then Fin (real (unat (d ! i))) else NaN)"

definition wr :: "byte list \<Rightarrow> nat \<Rightarrow> jsnum \<Rightarrow> byte list" where
  "wr d i v = d[i := toUint8Clamp v]"

section \<open>Image data\<close>

text \<open>
  An \<open>ImageData\<close> is a byte array with a width and a height. Its constructor throws unless
  the dimensions are positive and the array has four bytes for each pixel, so every
  \<open>ImageData\<close> the filters receive is well formed.
\<close>

record ImageData =
  data :: "byte list"
  width :: nat
  height :: nat

definition wf_image :: "ImageData \<Rightarrow> bool" where
  "wf_image img = (0 < width img \<and> 0 < height img
                   \<and> length (data img) = 4 * width img * height img)"

definition new_ImageData :: "byte list \<Rightarrow> nat \<Rightarrow> nat \<Rightarrow> error + ImageData" where
  "new_ImageData d w h =
     (if 0 < w \<and> 0 < h \<and> length d = 4 * w * h
      then Inr \<lparr> data = d, width = w, height = h \<rparr>
      else Inl ImageDataError)"

text \<open>The alpha byte of the pixel at column \<open>x\<close> and row \<open>y\<close>.\<close>

definition alpha_at :: "ImageData \<Rightarrow> nat \<Rightarrow> nat \<Rightarrow> byte" where
  "alpha_at img x y = data img ! ((y * width img + x) * 4 + 3)"

text \<open>The loop \<open>for (let i = 0; i < data.length; i += 4)\<close>, its body run on the array.\<close>

definition pixel_indices :: "nat \<Rightarrow> nat list" where
  "pixel_indices n = map (\<lambda>k. 4 * k) [0..<(n + 3) div 4]"

definition for_each_pixel :: "(nat \<Rightarrow> byte list \<Rightarrow> byte list) \<Rightarrow> byte list \<Rightarrow> byte list" where
  "for_each_pixel body d = fold body (pixel_indices (length d)) d"

text \<open>A coordinate clamped to the image: \<open>Math.max(0, Math.min(n - 1, v))\<close>.\<close>

definition clamp_coord :: "nat \<Rightarrow> int \<Rightarrow> nat" where
  "clamp_coord n v = nat (max 0 (min (int n - 1) v))"

text \<open>An element of a number array; outside the array it is \<open>undefined\<close>, here \<open>NaN\<close>.\<close>

definition kget :: "jsnum list \<Rightarrow> int \<Rightarrow> jsnum" where
  "kget ks i = (if 0 \<le> i \<and> i < int (length ks) then ks ! nat i else NaN)"

section \<open>The tone filters\<close>

text \<open>
  The filters that work in place take the byte array and return it updated. The
  quotient of \<open>applyBrightnessContrast\<close> is a function of its own, to speak about it.
  Sepia, grayscale and invert are modelled on the branch that is given the array; without
  one they fetch the array of the active layer and call themselves with it.
\<close>

definition contrastFactor :: "jsnum \<Rightarrow> jsnum" where
  "contrastFactor contrast =
     (Fin 259 * (contrast + Fin 255)) / (Fin 255 * (Fin 259 - contrast))"

definition applyBrightnessContrast :: "byte list \<Rightarrow> jsnum \<Rightarrow> jsnum \<Rightarrow> byte list" where
  "applyBrightnessContrast d brightness contrast =
     (let brightnessFactor = brightness / Fin 100;
          cf = contrastFactor contrast
      in for_each_pixel
           (\<lambda>i d.
              let r = rd d i + brightnessFactor * Fin 255;
                  g = rd d (i + 1) + brightnessFactor * Fin 255;
                  b = rd d (i + 2) + brightnessFactor * Fin 255;
                  r = cf * (r - Fin 128) + Fin 128;
                  g = cf * (g - Fin 128) + Fin 128;
                  b = cf * (b - Fin 128) + Fin 128;
                  d = wr d i (Math_max (Fin 0) (Math_min (Fin 255) r));
                  d = wr d (i + 1) (Math_max (Fin 0) (Math_min (Fin 255) g))
              in wr d (i + 2) (Math_max (Fin 0) (Math_min (Fin 255) b)))
           d)"

text \<open>
  The body of the hue/saturation loop, in its three steps: the conversion to HSL, the
  adjustment of hue and saturation, and the conversion back by sectors.
\<close>

definition hsl_of_rgb :: "jsnum \<Rightarrow> jsnum \<Rightarrow> jsnum \<Rightarrow> jsnum \<times> jsnum \<times> jsnum" where
  "hsl_of_rgb r g b =
     (let mx = Math_max3 r g b;
          mn = Math_min3 r g b;
          diff = mx - mn;
          l = (mx + mn) / Fin 2
      in if \<not> js_strict_eq diff (Fin 0) then
           (let s = (if js_greater l (Fin 0.5) then diff / (Fin 2 - mx - mn)
                     else diff / (mx + mn));
                h = (if js_strict_eq mx r then
                       (g - b) / diff + (if js_less g b then Fin 6 else Fin 0)
                     else if js_strict_eq mx g then (b - r) / diff + Fin 2
                     else if js_strict_eq mx b then (r - g) / diff + Fin 4
                     else Fin 0)
            in (h / Fin 6, s, l))
         else (Fin 0, Fin 0, l))"

definition shift_hue :: "jsnum \<Rightarrow> jsnum \<Rightarrow> jsnum" where
  "shift_hue h hueShift = js_rem (h + hueShift / (Fin 2 * Math_PI)) (Fin 1)"

definition rgb_of_hsl :: "jsnum \<Rightarrow> jsnum \<Rightarrow> jsnum \<Rightarrow> jsnum \<times> jsnum \<times> jsnum" where
  "rgb_of_hsl h s l =
     (let c = (Fin 1 - Math_abs (Fin 2 * l - Fin 1)) * s;
          x = c * (Fin 1 - Math_abs (js_rem (h * Fin 6) (Fin 2) - Fin 1));
          m = l - c / Fin 2;
          hSector = Math_floor (h * Fin 6);
          (rNew, gNew, bNew) =
            (if js_strict_eq hSector (Fin 0) then (c, x, Fin 0)
             else if js_strict_eq hSector (Fin 1) then (x, c, Fin 0)
             else if js_strict_eq hSector (Fin 2) then (Fin 0, c, x)
             else if js_strict_eq hSector (Fin 3) then (Fin 0, x, c)
             else if js_strict_eq hSector (Fin 4) then (x, Fin 0, c)
             else if js_strict_eq hSector (Fin 5) then (c, Fin 0, x)
             else (Fin 0, Fin 0, Fin 0))
      in (Math_round ((rNew + m) * Fin 255),
          Math_round ((gNew + m) * Fin 255),
          Math_round ((bNew + m) * Fin 255)))"

definition applyHueSaturation :: "byte list \<Rightarrow> jsnum \<Rightarrow> jsnum \<Rightarrow> byte list" where
  "applyHueSaturation d hue saturation =
     (let hueShift = (hue / Fin 180) * Math_PI;
          satFactor = Fin 1 + saturation / Fin 100
      in for_each_pixel
           (\<lambda>i d.
              let r = rd d i / Fin 255;
                  g = rd d (i + 1) / Fin 255;
                  b = rd d (i + 2) / Fin 255;
                  (h, s, l) = hsl_of_rgb r g b;
                  h = shift_hue h hueShift;
                  s = Math_max (Fin 0) (Math_min (Fin 1) (s * satFactor));
                  (r', g', b') = rgb_of_hsl h s l;
                  d = wr d i r';
                  d = wr d (i + 1) g'
              in wr d (i + 2) b')
           d)"

text \<open>
  \<open>Math.random\<close> is a parameter: \<open>rnd k\<close> is the number drawn for the \<open>k\<close>-th pixel.
\<close>

definition applyNoiseFilter :: "(nat \<Rightarrow> jsnum) \<Rightarrow> byte list \<Rightarrow> jsnum \<Rightarrow> bool \<Rightarrow> byte list" where
  "applyNoiseFilter rnd d amount uniform =
     (let intensity = (amount / Fin 100) * Fin 255
      in for_each_pixel
           (\<lambda>i d.
              let noise = (if uniform then (rnd (i div 4) - Fin 0.5) * intensity * Fin 2
                           else (rnd (i div 4) * Fin 2 - Fin 1) * intensity);
                  d = wr d i (Math_max (Fin 0) (Math_min (Fin 255) (rd d i + noise)));
                  d = wr d (i + 1) (Math_max (Fin 0) (Math_min (Fin 255) (rd d (i + 1) + noise)))
              in wr d (i + 2) (Math_max (Fin 0) (Math_min (Fin 255) (rd d (i + 2) + noise))))
           d)"

definition applySepia :: "byte list \<Rightarrow> byte list" where
  "applySepia d =
     for_each_pixel
       (\<lambda>i d.
          let r = rd d i;
              g = rd d (i + 1);
              b = rd d (i + 2);
              d = wr d i (Math_min (Fin 255) (r * js_literal 0.393 + g * js_literal 0.769 + b * js_literal 0.189));
              d = wr d (i + 1) (Math_min (Fin 255) (r * js_literal 0.349 + g * js_literal 0.686 + b * js_literal 0.168))
          in wr d (i + 2) (Math_min (Fin 255) (r * js_literal 0.272 + g * js_literal 0.534 + b * js_literal 0.131)))
       d"

definition grayscale_step :: "nat \<Rightarrow> byte list \<Rightarrow> byte list" where
  "grayscale_step i d =
     (let gray = rd d i * js_literal 0.299 + rd d (i + 1) * js_literal 0.587 + rd d (i + 2) * js_literal 0.114;
          d = wr d i gray;
          d = wr d (i + 1) gray
      in wr d (i + 2) gray)"

definition applyGrayscale :: "byte list \<Rightarrow> byte list" where
  "applyGrayscale d = for_each_pixel grayscale_step d"

text \<open>The byte the grayscale loop stores for the pixel that starts at index \<open>i\<close>.\<close>

definition gray_at :: "byte list \<Rightarrow> nat \<Rightarrow> byte" where
  "gray_at d i =
     toUint8Clamp (rd d i * js_literal 0.299 + rd d (i + 1) * js_literal 0.587 + rd d (i + 2) * js_literal 0.114)"

definition applyInvert :: "byte list \<Rightarrow> byte list" where
  "applyInvert d =
     for_each_pixel
       (\<lambda>i d.
          let d = wr d i (Fin 255 - rd d i);
              d = wr d (i + 1) (Fin 255 - rd d (i + 1))
          in wr d (i + 2) (Fin 255 - rd d (i + 2)))
       d"

section \<open>Convolution\<close>

text \<open>
  \<open>conv_taps\<close> is the pair of kernel loops, which sums the weighted samples of one
  pixel; \<open>conv_pixel\<close> is the body of the pixel loops, which stores the clamped sums and
  copies the alpha byte. The output array starts as zeros.
\<close>

definition conv_taps ::
  "byte list \<Rightarrow> nat \<Rightarrow> nat \<Rightarrow> jsnum list \<Rightarrow> nat \<Rightarrow> nat \<Rightarrow> nat \<Rightarrow> nat
     \<Rightarrow> jsnum \<times> jsnum \<times> jsnum" where
  "conv_taps d w h kern kernelSize half x y =
     fold (\<lambda>ky. fold (\<lambda>kx (r, g, b).
             let px = clamp_coord w (int x + int kx - int half);
                 py = clamp_coord h (int y + int ky - int half);
                 idx = (py * w + px) * 4;
                 weight = kget kern (int (ky * kernelSize + kx))
             in (r + rd d idx * weight, g + rd d (idx + 1) * weight, b + rd d (idx + 2) * weight))
           [0..<kernelSize])
       [0..<kernelSize] (Fin 0, Fin 0, Fin 0)"

definition conv_pixel ::
  "byte list \<Rightarrow> nat \<Rightarrow> nat \<Rightarrow> jsnum list \<Rightarrow> nat \<Rightarrow> nat \<Rightarrow> nat \<Rightarrow> nat
     \<Rightarrow> byte list \<Rightarrow> byte list" where
  "conv_pixel d w h kern kernelSize half y x output =
     (let (r, g, b) = conv_taps d w h kern kernelSize half x y;
          outputIdx = (y * w + x) * 4;
          output = wr output outputIdx (Math_max (Fin 0) (Math_min (Fin 255) r));
          output = wr output (outputIdx + 1) (Math_max (Fin 0) (Math_min (Fin 255) g));
          output = wr output (outputIdx + 2) (Math_max (Fin 0) (Math_min (Fin 255) b))
      in wr output (outputIdx + 3) (rd d (outputIdx + 3)))"

definition applyConvolution :: "ImageData \<Rightarrow> jsnum list \<Rightarrow> nat \<Rightarrow> error + ImageData" where
  "applyConvolution imageData kern kernelSize =
     (let d = data imageData;
          w = width imageData;
          h = height imageData;
          output = replicate (length d) 0;
          half = kernelSize div 2;
          output = fold (\<lambda>y. fold (conv_pixel d w h kern kernelSize half y) [0..<w])
                     [0..<h] output
      in new_ImageData output w h)"

definition applySharpenFilter :: "ImageData \<Rightarrow> error + ImageData" where
  "applySharpenFilter imageData =
     applyConvolution imageData
       [Fin 0, Fin (- 1), Fin 0, Fin (- 1), Fin 5, Fin (- 1), Fin 0, Fin (- 1), Fin 0] 3"

definition applyEmbossFilter :: "ImageData \<Rightarrow> error + ImageData" where
  "applyEmbossFilter imageData =
     applyConvolution imageData
       [Fin (- 2), Fin (- 1), Fin 0, Fin (- 1), Fin 1, Fin 1, Fin 0, Fin 1, Fin 2] 3"

definition applyEdgeDetectFilter :: "ImageData \<Rightarrow> error + ImageData" where
  "applyEdgeDetectFilter imageData =
     applyConvolution imageData
       [Fin 0, Fin 1, Fin 0, Fin 1, Fin (- 4), Fin 1, Fin 0, Fin 1, Fin 0] 3"

section \<open>Gaussian blur\<close>

text \<open>
  \<open>new Array(size)\<close> throws a \<open>RangeError\<close> unless \<open>size\<close> is an integer in
  \<open>0 .. 2^32 - 1\<close>.
\<close>

fun array_length :: "jsnum \<Rightarrow> nat option" where
  "array_length (Fin a) =
     (if 0 \<le> a \<and> a < 2 ^ 32 \<and> of_int \<lfloor>a\<rfloor> = a then Some (nat \<lfloor>a\<rfloor>) else None)"
| "array_length _ = None"

definition generateGaussianKernel :: "jsnum \<Rightarrow> error + jsnum list" where
  "generateGaussianKernel radius =
     (let size = Math_ceil radius * Fin 2 + Fin 1
      in case array_length size of
           None \<Rightarrow> Inl RangeError
         | Some n \<Rightarrow>
             (let sigma = radius / Fin 3;
                  twoSigmaSquare = Fin 2 * sigma * sigma;
                  center = n div 2;
                  kernel = map (\<lambda>i. let x = Fin (real i) - Fin (real center)
                                     in Math_exp (- (x * x) / twoSigmaSquare)) [0..<n];
                  sum = foldl (+) (Fin 0) kernel
              in Inr (map (\<lambda>k. k / sum) kernel)))"

text \<open>
  As for the convolution: \<open>blur_taps\<close> is the pair of kernel loops and \<open>blur_pixel\<close>
  the body of the pixel loops. All four channels are averaged.
\<close>

definition blur_taps ::
  "byte list \<Rightarrow> nat \<Rightarrow> nat \<Rightarrow> jsnum list \<Rightarrow> nat \<Rightarrow> nat \<Rightarrow> nat
     \<Rightarrow> jsnum \<times> jsnum \<times> jsnum \<times> jsnum \<times> jsnum" where
  "blur_taps d w h gaussianKernel half x y =
     fold (\<lambda>ky. fold (\<lambda>kx (r, g, b, a, totalWeight).
             let px = clamp_coord w (int x + kx);
                 py = clamp_coord h (int y + ky);
                 idx = (py * w + px) * 4;
                 weight = kget gaussianKernel (ky + int half) * kget gaussianKernel (kx + int half)
             in (r + rd d idx * weight, g + rd d (idx + 1) * weight,
                 b + rd d (idx + 2) * weight, a + rd d (idx + 3) * weight,
                 totalWeight + weight))
           [- int half..int half])
       [- int half..int half] (Fin 0, Fin 0, Fin 0, Fin 0, Fin 0)"

definition blur_pixel ::
  "byte list \<Rightarrow> nat \<Rightarrow> nat \<Rightarrow> jsnum list \<Rightarrow> nat \<Rightarrow> nat \<Rightarrow> nat \<Rightarrow> byte list \<Rightarrow> byte list" where
  "blur_pixel d w h gaussianKernel half y x output =
     (let (r, g, b, a, totalWeight) = blur_taps d w h gaussianKernel half x y;
          outputIdx = (y * w + x) * 4;
          output = wr output outputIdx (r / totalWeight);
          output = wr output (outputIdx + 1) (g / totalWeight);
          output = wr output (outputIdx + 2) (b / totalWeight)
      in wr output (outputIdx + 3) (a / totalWeight))"

definition applyBlur :: "ImageData \<Rightarrow> jsnum \<Rightarrow> error + ImageData" where
  "applyBlur imageData radius =
     (let d = data imageData;
          w = width imageData;
          h = height imageData;
          output = replicate (length d) 0
      in case generateGaussianKernel radius of
           Inl e \<Rightarrow> Inl e
         | Inr gaussianKernel \<Rightarrow>
             (let kernelSize = length gaussianKernel;
                  half = kernelSize div 2;
                  output = fold (\<lambda>y. fold (blur_pixel d w h gaussianKernel half y) [0..<w])
                             [0..<h] output
              in new_ImageData output w h))"

section \<open>Oil painting\<close>

text \<open>
  The four per-pixel tables are JavaScript arrays indexed by a computed number. An array
  is modelled by its properties, a map from numbers to numbers: a store at any key
  creates the property, and a read of a missing one is \<open>undefined\<close>, which the
  increments, the comparison and the division turn into \<open>NaN\<close>. \<open>new Array(n)\<close> throws
  a \<open>RangeError\<close> when \<open>n\<close> is \<open>2^32\<close> or more. The radius and the number of levels are
  integers at the only call.
\<close>

type_synonym jsarray = "jsnum \<rightharpoonup> jsnum"

definition new_Array_fill :: "nat \<Rightarrow> jsnum \<Rightarrow> error + jsarray" where
  "new_Array_fill n v =
     (if n < 2 ^ 32 then
        Inr (\<lambda>k. case k of
                   Fin a \<Rightarrow> if 0 \<le> a \<and> a < real n \<and> of_int \<lfloor>a\<rfloor> = a then Some v else None
                 | _ \<Rightarrow> None)
      else Inl RangeError)"

definition aget :: "jsarray \<Rightarrow> jsnum \<Rightarrow> jsnum" where
  "aget arr k = (case arr k of None \<Rightarrow> NaN | Some v \<Rightarrow> v)"

definition oil_intensity :: "nat \<Rightarrow> jsnum \<Rightarrow> jsnum \<Rightarrow> jsnum \<Rightarrow> jsnum" where
  "oil_intensity intensityLevels r g b =
     Math_floor ((((r + g + b) / Fin 3) * (Fin (real intensityLevels) - Fin 1)) / Fin 255)"

text \<open>The body of the two neighbourhood loops: one sample goes into its bucket.\<close>

definition oil_sample ::
  "byte list \<Rightarrow> nat \<Rightarrow> nat \<Rightarrow> nat \<Rightarrow> nat \<Rightarrow> nat \<Rightarrow> int \<Rightarrow> int
     \<Rightarrow> jsarray \<times> jsarray \<times> jsarray \<times> jsarray \<Rightarrow> jsarray \<times> jsarray \<times> jsarray \<times> jsarray" where
  "oil_sample d w h intensityLevels x y ky kx tables =
     (case tables of (intensityCount, avgR, avgG, avgB) \<Rightarrow>
        let px = clamp_coord w (int x + kx);
            py = clamp_coord h (int y + ky);
            idx = (py * w + px) * 4;
            r = rd d idx;
            g = rd d (idx + 1);
            b = rd d (idx + 2);
            intensity = oil_intensity intensityLevels r g b
        in (intensityCount(intensity \<mapsto> aget intensityCount intensity + Fin 1),
            avgR(intensity \<mapsto> aget avgR intensity + r),
            avgG(intensity \<mapsto> aget avgG intensity + g),
            avgB(intensity \<mapsto> aget avgB intensity + b)))"

text \<open>The four tables of one destination pixel, once its neighbourhood is counted.\<close>

definition oil_buckets ::
  "byte list \<Rightarrow> nat \<Rightarrow> nat \<Rightarrow> int \<Rightarrow> nat \<Rightarrow> nat \<Rightarrow> nat
     \<Rightarrow> error + jsarray \<times> jsarray \<times> jsarray \<times> jsarray" where
  "oil_buckets d w h radius intensityLevels x y =
     (case new_Array_fill intensityLevels (Fin 0) of
        Inl e \<Rightarrow> Inl e
      | Inr zeros \<Rightarrow>
          Inr (fold (\<lambda>ky. fold (oil_sample d w h intensityLevels x y ky) [- radius..radius])
                 [- radius..radius] (zeros, zeros, zeros, zeros)))"

definition oil_maxIndex :: "jsarray \<Rightarrow> nat \<Rightarrow> nat" where
  "oil_maxIndex intensityCount intensityLevels =
     fold (\<lambda>i maxIndex.
             if js_greater (aget intensityCount (Fin (real i)))
                  (aget intensityCount (Fin (real maxIndex)))
             then i else maxIndex)
       [1..<intensityLevels] 0"

text \<open>
  Two conditions on the four tables, for the proofs: every bucket below the number of
  levels holds a count and three sums that are finite, not negative and bounded; and
  some bucket holds a count of at least 1.
\<close>

definition oil_tables_ok :: "nat \<Rightarrow> jsarray \<times> jsarray \<times> jsarray \<times> jsarray \<Rightarrow> bool" where
  "oil_tables_ok L tables =
     (case tables of (intensityCount, avgR, avgG, avgB) \<Rightarrow>
        \<forall>i<L. (\<exists>c. intensityCount (Fin (real i)) = Some (Fin c) \<and> 0 \<le> c \<and> c \<le> 2 ^ 60)
             \<and> (\<exists>s. avgR (Fin (real i)) = Some (Fin s) \<and> 0 \<le> s \<and> s \<le> 2 ^ 70)
             \<and> (\<exists>s. avgG (Fin (real i)) = Some (Fin s) \<and> 0 \<le> s \<and> s \<le> 2 ^ 70)
             \<and> (\<exists>s. avgB (Fin (real i)) = Some (Fin s) \<and> 0 \<le> s \<and> s \<le> 2 ^ 70))"

definition oil_some_count :: "nat \<Rightarrow> jsarray \<times> jsarray \<times> jsarray \<times> jsarray \<Rightarrow> bool" where
  "oil_some_count L tables =
     (\<exists>i<L. \<exists>c. 1 \<le> c \<and> fst tables (Fin (real i)) = Some (Fin c))"

text \<open>A loop whose body may throw stops at the first error.\<close>

fun fold_err :: "('a \<Rightarrow> 's \<Rightarrow> error + 's) \<Rightarrow> 'a list \<Rightarrow> 's \<Rightarrow> error + 's" where
  "fold_err f [] s = Inr s"
| "fold_err f (a # as) s = (case f a s of Inl e \<Rightarrow> Inl e | Inr s' \<Rightarrow> fold_err f as s')"

definition oil_pixel ::
  "byte list \<Rightarrow> nat \<Rightarrow> nat \<Rightarrow> int \<Rightarrow> nat \<Rightarrow> nat \<Rightarrow> nat \<Rightarrow> byte list
     \<Rightarrow> error + byte list" where
  "oil_pixel d w h radius intensityLevels y x output =
     (case oil_buckets d w h radius intensityLevels x y of
        Inl e \<Rightarrow> Inl e
      | Inr (intensityCount, avgR, avgG, avgB) \<Rightarrow>
          (let maxIndex = Fin (real (oil_maxIndex intensityCount intensityLevels));
               outputIdx = (y * w + x) * 4;
               output = wr output outputIdx (aget avgR maxIndex / aget intensityCount maxIndex);
               output = wr output (outputIdx + 1)
                          (aget avgG maxIndex / aget intensityCount maxIndex);
               output = wr output (outputIdx + 2)
                          (aget avgB maxIndex / aget intensityCount maxIndex)
           in Inr (wr output (outputIdx + 3) (rd d (outputIdx + 3)))))"

definition applyOilPaintingFilter :: "ImageData \<Rightarrow> int \<Rightarrow> nat \<Rightarrow> error + ImageData" where
  "applyOilPaintingFilter imageData radius intensityLevels =
     (let d = data imageData;
          w = width imageData;
          h = height imageData;
          output = replicate (length d) 0
      in case fold_err (\<lambda>y. fold_err (oil_pixel d w h radius intensityLevels y) [0..<w])
                [0..<h] output of
           Inl e \<Rightarrow> Inl e
         | Inr output \<Rightarrow> new_ImageData output w h)"

section \<open>Filter dispatch\<close>

text \<open>
  The options are optional numbers and an optional flag; \<open>None\<close> is a missing key.
  \<open>v || dflt\<close> gives the default when \<open>v\<close> is missing or falsy.
\<close>

record FilterOptions =
  opt_brightness :: "jsnum option"
  opt_contrast :: "jsnum option"
  opt_saturation :: "jsnum option"
  opt_hue :: "jsnum option"
  opt_blur :: "jsnum option"
  opt_amount :: "jsnum option"
  opt_uniform :: "bool option"

definition or_num :: "jsnum option \<Rightarrow> jsnum \<Rightarrow> jsnum" where
  "or_num v dflt = (case v of None \<Rightarrow> dflt | Some a \<Rightarrow> if falsy a then dflt else a)"

definition or_bool :: "bool option \<Rightarrow> bool \<Rightarrow> bool" where
  "or_bool v dflt = (case v of None \<Rightarrow> dflt | Some a \<Rightarrow> if a then a else dflt)"

definition processImageData ::
  "(nat \<Rightarrow> jsnum) \<Rightarrow> ImageData \<Rightarrow> string \<Rightarrow> FilterOptions \<Rightarrow> error + ImageData" where
  "processImageData rnd imageData filterType options =
     (let d = data imageData;
          w = width imageData;
          h = height imageData
      in if filterType = ''brightness'' then
           new_ImageData
             (applyBrightnessContrast d (or_num (opt_brightness options) (Fin 0))
                (or_num (opt_contrast options) (Fin 0))) w h
         else if filterType = ''saturation'' then
           new_ImageData
             (applyHueSaturation d (or_num (opt_hue options) (Fin 0))
                (or_num (opt_saturation options) (Fin 0))) w h
         else if filterType = ''blur'' then
           applyBlur imageData (or_num (opt_blur options) (Fin 5))
         else if filterType = ''sharpen'' then applySharpenFilter imageData
         else if filterType = ''noise'' then
           new_ImageData
             (applyNoiseFilter rnd d (or_num (opt_amount options) (Fin 25))
                (or_bool (opt_uniform options) False)) w h
         else if filterType = ''sepia'' then new_ImageData (applySepia d) w h
         else if filterType = ''grayscale'' then new_ImageData (applyGrayscale d) w h
         else if filterType = ''invert'' then new_ImageData (applyInvert d) w h
         else if filterType = ''emboss'' then applyEmbossFilter imageData
         else if filterType = ''edge-detect'' then applyEdgeDetectFilter imageData
         else new_ImageData d w h)"

text \<open>The filter types the dispatch has a case for.\<close>

definition dispatched :: "string list" where
  "dispatched = [''brightness'', ''saturation'', ''blur'', ''sharpen'', ''noise'', ''sepia'',
                 ''grayscale'', ''invert'', ''emboss'', ''edge-detect'']"

text \<open>An options object with no key, and a one-pixel and a two-pixel image.\<close>

definition no_options :: FilterOptions where
  "no_options =
     \<lparr> opt_brightness = None, opt_contrast = None, opt_saturation = None, opt_hue = None,
       opt_blur = None, opt_amount = None, opt_uniform = None \<rparr>"

definition one_pixel :: ImageData where
  "one_pixel = \<lparr> data = [200, 100, 128, 255], width = 1, height = 1 \<rparr>"

definition two_pixels :: ImageData where
  "two_pixels = \<lparr> data = [10, 20, 30, 255, 40, 50, 60, 128], width = 2, height = 1 \<rparr>"

section \<open>Layers and documents\<close>

text \<open>
  A layer owns a canvas. The canvas, its 2D context and what drawing does to the pixels
  belong to the browser; they are a parameter of the model: a type \<open>'c\<close> of canvas states
  and a record of the host operations the code calls. \<open>createCanvas\<close> is
  \<open>document.createElement("canvas")\<close> followed by \<open>getContext("2d")\<close>, which may
  give \<open>null\<close>; \<open>freshId\<close> is what \<open>generateId\<close> builds from the clock and
  \<open>Math.random\<close>.
\<close>

record 'c Host =
  createCanvas :: "jsnum \<Rightarrow> jsnum \<Rightarrow> 'c option"
  setGlobalAlpha :: "jsnum \<Rightarrow> 'c \<Rightarrow> 'c"
  setGlobalCompositeOperation :: "string \<Rightarrow> 'c \<Rightarrow> 'c"
  drawImage :: "'c \<Rightarrow> jsnum \<Rightarrow> jsnum \<Rightarrow> 'c \<Rightarrow> 'c"
  freshId :: string

record 'c Layer =
  layer_id :: string
  name :: string
  canvas :: 'c
  visible :: bool
  opacity :: jsnum
  blendMode :: string
  locked :: bool
  isBackground :: bool
  pos_x :: jsnum
  pos_y :: jsnum

record 'c Document =
  doc_id :: string
  doc_name :: string
  doc_width :: jsnum
  doc_height :: jsnum
  resolution :: jsnum
  background :: string
  layers :: "'c Layer list"
  activeLayerIndex :: int
  saved :: bool


definition mergeWith :: "'c Host \<Rightarrow> 'c Layer \<Rightarrow> 'c Layer \<Rightarrow> 'c Layer" where
  "mergeWith host this otherLayer =
     (let c1 = setGlobalAlpha host (opacity otherLayer / Fin 100) (canvas this);
          c2 = setGlobalCompositeOperation host (blendMode otherLayer) c1;
          c3 = drawImage host (canvas otherLayer) (pos_x otherLayer) (pos_y otherLayer) c2;
          c4 = setGlobalAlpha host (Fin 1) c3;
          c5 = setGlobalCompositeOperation host ''source-over'' c4
      in this\<lparr>canvas := c5\<rparr>)"

text \<open>\<open>Array.prototype.findIndex\<close>: the first index whose element passes, or \<open>-1\<close>.\<close>

fun findIndex_from :: "('a \<Rightarrow> bool) \<Rightarrow> 'a list \<Rightarrow> int \<Rightarrow> int" where
  "findIndex_from P [] i = - 1"
| "findIndex_from P (e # es) i = (if P e then i else findIndex_from P es (i + 1))"

definition findIndex :: "('a \<Rightarrow> bool) \<Rightarrow> 'a list \<Rightarrow> int" where
  "findIndex P es = findIndex_from P es 0"

text \<open>\<open>splice(i, 1)\<close>: the array without its element at \<open>i\<close>.\<close>

definition splice1 :: "nat \<Rightarrow> 'a list \<Rightarrow> 'a list" where
  "splice1 i es = take i es @ drop (Suc i) es"

definition mergeDown :: "'c Host \<Rightarrow> 'c Document \<Rightarrow> string \<Rightarrow> 'c Document" where
  "mergeDown host doc layerId =
     (let layerIndex = findIndex (\<lambda>layer. layer_id layer = layerId) (layers doc)
      in if 0 < layerIndex then
           (let i = nat layerIndex;
                topLayer = layers doc ! i;
                bottomLayer = layers doc ! (i - 1);
                merged = mergeWith host bottomLayer topLayer
            in doc\<lparr> layers := splice1 i ((layers doc)[i - 1 := merged]),
                     activeLayerIndex := layerIndex - 1,
                     saved := False \<rparr>)
         else doc)"


text \<open>A host and a document to run the layer operations on: a canvas is a list of draw calls.\<close>

definition demo_host :: "string list Host" where
  "demo_host =
     \<lparr> createCanvas = (\<lambda>w h. Some []),
       setGlobalAlpha = (\<lambda>a c. c),
       setGlobalCompositeOperation = (\<lambda>m c. c @ [m]),
       drawImage = (\<lambda>src dx dy c. c @ src),
       freshId = ''layer_9'' \<rparr>"

definition demo_layer :: "string \<Rightarrow> string \<Rightarrow> string list Layer" where
  "demo_layer i nm =
     \<lparr> layer_id = i, name = nm, canvas = [nm], visible = True, opacity = Fin 100,
       blendMode = ''normal'', locked = False, isBackground = False,
       pos_x = Fin 0, pos_y = Fin 0 \<rparr>"

definition demo_doc :: "string list Document" where
  "demo_doc =
     \<lparr> doc_id = ''doc_1'', doc_name = ''Untitled'', doc_width = Fin 2, doc_height = Fin 2,
       resolution = Fin 72, background = ''transparent'',
       layers = [demo_layer ''layer_1'' ''Background'', demo_layer ''layer_2'' ''Layer 1'',
                 demo_layer ''layer_3'' ''Layer 2''],
       activeLayerIndex = 2, saved = True \<rparr>"

section \<open>Rounding to binary64\<close>

lemma round_half_even_err: "\<bar>of_int (round_half_even a) - a\<bar> \<le> 1 / 2"
proof -
  have "of_int \<lfloor>a\<rfloor> \<le> a" "a < of_int \<lfloor>a\<rfloor> + 1" by linarith+
  then show ?thesis
    by (auto simp add: round_half_even_def Let_def)
qed

lemma round_half_even_int: "round_half_even (of_int n) = n"
  by (simp add: round_half_even_def)

lemma round_half_even_mono:
  assumes "a \<le> b"
  shows "round_half_even a \<le> round_half_even b"
proof (cases "\<lfloor>a\<rfloor> = \<lfloor>b\<rfloor>")
  case True
  with assms show ?thesis
    by (auto simp add: round_half_even_def Let_def)
next
  case False
  with assms have "\<lfloor>a\<rfloor> < \<lfloor>b\<rfloor>"
    using floor_mono [of a b] by linarith
  moreover have "round_half_even a \<le> \<lfloor>a\<rfloor> + 1" "\<lfloor>b\<rfloor> \<le> round_half_even b"
    by (auto simp add: round_half_even_def Let_def)
  ultimately show ?thesis by linarith
qed

lemma round_half_even_minus: "round_half_even (- a) = - round_half_even a"
proof (cases "a = of_int \<lfloor>a\<rfloor>")
  case True
  then have "round_half_even a = \<lfloor>a\<rfloor>" "round_half_even (- a) = - \<lfloor>a\<rfloor>"
    using round_half_even_int [of "\<lfloor>a\<rfloor>"] round_half_even_int [of "- \<lfloor>a\<rfloor>"] by simp_all
  then show ?thesis by simp
next
  case False
  define f where "f = \<lfloor>a\<rfloor>"
  have fa: "of_int f < a" "a < of_int f + 1"
    using False unfolding f_def by linarith+
  then have fm: "\<lfloor>- a\<rfloor> = - f - 1"
    by (intro floor_unique) auto
  have ev: "even (- f - 1) \<longleftrightarrow> odd f" by simp
  show ?thesis
    unfolding round_half_even_def Let_def fm f_def [symmetric] ev
    using fa by auto
qed

lemma b64_ulp_pos: "0 < b64_ulp x"
  by (simp add: b64_ulp_def)

lemma b64_nearest_0: "b64_nearest 0 = 0"
  by (simp add: b64_nearest_def round_half_even_def)

lemma b64_nearest_err: "\<bar>b64_nearest x - x\<bar> \<le> b64_ulp x / 2"
proof -
  let ?q = "b64_ulp x"
  have q: "0 < ?q" by (rule b64_ulp_pos)
  have "b64_nearest x - x = ?q * (of_int (round_half_even (x / ?q)) - x / ?q)"
    using q by (simp add: b64_nearest_def algebra_simps)
  then have "\<bar>b64_nearest x - x\<bar> = ?q * \<bar>of_int (round_half_even (x / ?q)) - x / ?q\<bar>"
    using q by (simp add: abs_mult)
  also have "\<dots> \<le> ?q * (1 / 2)"
    using q round_half_even_err [of "x / ?q"] by (intro mult_left_mono) auto
  finally show ?thesis by simp
qed

lemma b64_nearest_minus: "b64_nearest (- x) = - b64_nearest x"
  by (simp add: b64_nearest_def b64_ulp_def b64_exponent_def round_half_even_minus)

text \<open>The exponent brackets the magnitude.\<close>

lemma floor_log2_bounds:
  assumes "x \<noteq> 0"
  shows "2 powi \<lfloor>log 2 \<bar>x\<bar>\<rfloor> \<le> \<bar>x\<bar>" and "\<bar>x\<bar> < 2 powi (\<lfloor>log 2 \<bar>x\<bar>\<rfloor> + 1)"
proof -
  from assms have p: "0 < \<bar>x\<bar>" by simp
  have "2 powr real_of_int \<lfloor>log 2 \<bar>x\<bar>\<rfloor> \<le> \<bar>x\<bar> \<and> \<bar>x\<bar> < 2 powr (real_of_int \<lfloor>log 2 \<bar>x\<bar>\<rfloor> + 1)"
    using floor_log_eq_powr_iff [OF p, of 2 "\<lfloor>log 2 \<bar>x\<bar>\<rfloor>"] by simp
  moreover have "2 powr (real_of_int \<lfloor>log 2 \<bar>x\<bar>\<rfloor> + 1) = (2::real) powr real_of_int (\<lfloor>log 2 \<bar>x\<bar>\<rfloor> + 1)"
    by simp
  ultimately show "2 powi \<lfloor>log 2 \<bar>x\<bar>\<rfloor> \<le> \<bar>x\<bar>" and "\<bar>x\<bar> < 2 powi (\<lfloor>log 2 \<bar>x\<bar>\<rfloor> + 1)"
    by (simp_all only: powr_real_of_int' [of 2, simplified])
qed

lemma floor_log2_less:
  assumes "x \<noteq> 0" and "\<bar>x\<bar> < 2 powi k"
  shows "\<lfloor>log 2 \<bar>x\<bar>\<rfloor> < k"
proof (rule ccontr)
  assume "\<not> \<lfloor>log 2 \<bar>x\<bar>\<rfloor> < k"
  then have "k \<le> \<lfloor>log 2 \<bar>x\<bar>\<rfloor>" by simp
  then have "(2::real) powi k \<le> 2 powi \<lfloor>log 2 \<bar>x\<bar>\<rfloor>"
    by (intro power_int_increasing) auto
  with floor_log2_bounds(1) [OF assms(1)] assms(2) show False by linarith
qed

lemma floor_log2_ge:
  assumes "2 powi k \<le> \<bar>x\<bar>"
  shows "k \<le> \<lfloor>log 2 \<bar>x\<bar>\<rfloor>"
proof (rule ccontr)
  assume "\<not> k \<le> \<lfloor>log 2 \<bar>x\<bar>\<rfloor>"
  then have "\<lfloor>log 2 \<bar>x\<bar>\<rfloor> + 1 \<le> k" by simp
  then have le: "(2::real) powi (\<lfloor>log 2 \<bar>x\<bar>\<rfloor> + 1) \<le> 2 powi k"
    by (intro power_int_increasing) auto
  have "0 < (2::real) powi k" by simp
  with assms have "0 < \<bar>x\<bar>" by linarith
  then have "x \<noteq> 0" by simp
  from floor_log2_bounds(2) [OF this] le assms show False by linarith
qed

lemma b64_exponent_le:
  assumes "\<bar>x\<bar> < 2 powi k" and "- 1021 \<le> k"
  shows "b64_exponent x < k"
proof (cases "x = 0")
  case True
  with assms(2) show ?thesis by (simp add: b64_exponent_def)
next
  case False
  from floor_log2_less [OF False assms(1)] assms(2) False show ?thesis
    by (simp add: b64_exponent_def)
qed

text \<open>Bounded inputs: the error is small.\<close>

lemma b64_nearest_near:
  assumes "\<bar>x\<bar> < 2 ^ k"
  shows "\<bar>b64_nearest x - x\<bar> \<le> 2 ^ k / 2 ^ 53"
proof -
  from assms have "\<bar>x\<bar> < 2 powi int k" by simp
  then have "b64_exponent x < int k"
    by (rule b64_exponent_le) simp
  then have "b64_exponent x - 52 \<le> int k - 53" by simp
  then have "b64_ulp x \<le> 2 powi (int k - 53)"
    unfolding b64_ulp_def by (intro power_int_increasing) auto
  also have "\<dots> = 2 ^ k / 2 ^ 53"
    by (simp add: power_int_diff)
  finally have "b64_ulp x \<le> 2 ^ k / 2 ^ 53" .
  with b64_nearest_err [of x] b64_ulp_pos [of x] show ?thesis by linarith
qed

text \<open>A multiple of the unit that bounds the input bounds the result.\<close>

lemma b64_nearest_ge_multiple:
  assumes "of_int m * b64_ulp x \<le> x"
  shows "of_int m * b64_ulp x \<le> b64_nearest x"
proof -
  let ?q = "b64_ulp x"
  have q: "0 < ?q" by (rule b64_ulp_pos)
  with assms have "of_int m \<le> x / ?q" by (simp add: pos_le_divide_eq)
  then have "round_half_even (of_int m) \<le> round_half_even (x / ?q)"
    by (rule round_half_even_mono)
  then have "of_int m \<le> (of_int (round_half_even (x / ?q)) :: real)"
    by (simp add: round_half_even_int)
  with q show ?thesis
    unfolding b64_nearest_def by (simp add: mult.commute mult_left_mono)
qed

lemma b64_nearest_le_multiple:
  assumes "x \<le> of_int m * b64_ulp x"
  shows "b64_nearest x \<le> of_int m * b64_ulp x"
proof -
  let ?q = "b64_ulp x"
  have q: "0 < ?q" by (rule b64_ulp_pos)
  with assms have "x / ?q \<le> of_int m" by (simp add: pos_divide_le_eq)
  then have "round_half_even (x / ?q) \<le> round_half_even (of_int m)"
    by (rule round_half_even_mono)
  then have "(of_int (round_half_even (x / ?q)) :: real) \<le> of_int m"
    by (simp add: round_half_even_int)
  with q show ?thesis
    unfolding b64_nearest_def by (simp add: mult.commute mult_left_mono)
qed

text \<open>Exactness: a product of a 53-bit integer and a power of two in range is kept.\<close>

lemma b64_nearest_exact:
  assumes n: "\<bar>n\<bar> < 2 ^ 53" and j: "- 1074 \<le> j"
  shows "b64_nearest (of_int n * 2 powi j) = of_int n * 2 powi j"
proof -
  define x :: real where "x = of_int n * 2 powi j"
  have "\<bar>x\<bar> = of_int \<bar>n\<bar> * 2 powi j"
    by (simp add: x_def abs_mult)
  also have "\<dots> < 2 ^ 53 * 2 powi j"
  proof -
    from n have "(of_int \<bar>n\<bar> :: real) < of_int (2 ^ 53)" by (simp only: of_int_less_iff)
    then show ?thesis by (intro mult_strict_right_mono) auto
  qed
  also have "\<dots> = 2 powi (j + 53)"
    by (simp add: power_int_add)
  finally have "\<bar>x\<bar> < 2 powi (j + 53)" .
  then have "b64_exponent x < j + 53"
    using j by (intro b64_exponent_le) auto
  then have d: "0 \<le> j - (b64_exponent x - 52)" by simp
  define i where "i = nat (j - (b64_exponent x - 52))"
  have "2 powi j / b64_ulp x = (2::real) powi (j - (b64_exponent x - 52))"
    by (simp add: b64_ulp_def power_int_diff)
  also have "\<dots> = 2 ^ i"
    using d by (simp add: i_def power_int_def)
  finally have "2 powi j / b64_ulp x = (2::real) ^ i" .
  moreover have "x / b64_ulp x = of_int n * (2 powi j / b64_ulp x)"
    by (simp add: x_def)
  ultimately have "x / b64_ulp x = of_int (n * 2 ^ i)"
    by simp
  then have "round_half_even (x / b64_ulp x) = n * 2 ^ i"
    by (simp only: round_half_even_int)
  then have "b64_nearest x = b64_ulp x * (x / b64_ulp x)"
    unfolding b64_nearest_def \<open>x / b64_ulp x = of_int (n * 2 ^ i)\<close> by simp
  also have "\<dots> = x"
    using b64_ulp_pos [of x] by simp
  finally show ?thesis by (simp add: x_def)
qed

lemma b64_nearest_int:
  assumes "\<bar>n\<bar> < 2 ^ 53"
  shows "b64_nearest (of_int n) = of_int n"
  using b64_nearest_exact [OF assms, of 0] by simp


lemma pow2_split: "(2::real) powi (a + b) = 2 powi a * 2 powi b"
  by (rule power_int_add) simp

lemma pow2_53: "(2::real) powi (e + 1) = 2 ^ 53 * 2 powi (e - 52)"
proof -
  have "(2::real) powi (e + 1) = 2 powi (53 + (e - 52))"
    by (rule arg_cong [where f = "\<lambda>i. 2 powi i"]) simp
  also have "\<dots> = 2 powi 53 * 2 powi (e - 52)" by (rule pow2_split)
  finally show ?thesis by simp
qed

lemma pow2_52: "(2::real) powi e = 2 ^ 52 * 2 powi (e - 52)"
proof -
  have "(2::real) powi e = 2 powi (52 + (e - 52))"
    by (rule arg_cong [where f = "\<lambda>i. 2 powi i"]) simp
  also have "\<dots> = 2 powi 52 * 2 powi (e - 52)" by (rule pow2_split)
  finally show ?thesis by simp
qed

text \<open>Rounding is monotone.\<close>

lemma b64_nearest_nonneg: "0 \<le> x \<Longrightarrow> 0 \<le> b64_nearest x"
  using b64_nearest_ge_multiple [of 0 x] by simp

lemma b64_nearest_nonpos: "x \<le> 0 \<Longrightarrow> b64_nearest x \<le> 0"
  using b64_nearest_le_multiple [of x 0] by simp

lemma b64_exponent_ge_floor: "x \<noteq> 0 \<Longrightarrow> \<lfloor>log 2 \<bar>x\<bar>\<rfloor> \<le> b64_exponent x"
  by (simp add: b64_exponent_def)

lemma b64_exponent_upper:
  assumes "x \<noteq> 0"
  shows "\<bar>x\<bar> < 2 powi (b64_exponent x + 1)"
proof -
  have "\<bar>x\<bar> < 2 powi (\<lfloor>log 2 \<bar>x\<bar>\<rfloor> + 1)"
    by (rule floor_log2_bounds(2) [OF assms])
  also have "\<dots> \<le> 2 powi (b64_exponent x + 1)"
    using b64_exponent_ge_floor [OF assms] by (intro power_int_increasing) auto
  finally show ?thesis .
qed

lemma b64_exponent_lower:
  assumes "x \<noteq> 0" and "- 1022 < b64_exponent x"
  shows "2 powi b64_exponent x \<le> \<bar>x\<bar>"
proof -
  from assms have "b64_exponent x = \<lfloor>log 2 \<bar>x\<bar>\<rfloor>"
    by (simp add: b64_exponent_def max_def split: if_splits)
  with floor_log2_bounds(1) [OF assms(1)] show ?thesis by simp
qed

lemma b64_exponent_mono:
  assumes "0 < x" and "x \<le> y"
  shows "b64_exponent x \<le> b64_exponent y"
proof -
  from assms have "log 2 \<bar>x\<bar> \<le> log 2 \<bar>y\<bar>" by simp
  then have "\<lfloor>log 2 \<bar>x\<bar>\<rfloor> \<le> \<lfloor>log 2 \<bar>y\<bar>\<rfloor>" by (rule floor_mono)
  with assms show ?thesis by (simp add: b64_exponent_def)
qed

lemma b64_nearest_mono_pos:
  assumes "0 < x" and "x \<le> y"
  shows "b64_nearest x \<le> b64_nearest y"
proof (cases "b64_exponent x = b64_exponent y")
  case True
  then have q: "b64_ulp x = b64_ulp y" by (simp add: b64_ulp_def)
  have "x / b64_ulp y \<le> y / b64_ulp y"
    using assms(2) b64_ulp_pos [of y] by (simp add: divide_right_mono)
  then have "round_half_even (x / b64_ulp y) \<le> round_half_even (y / b64_ulp y)"
    by (rule round_half_even_mono)
  then have "(of_int (round_half_even (x / b64_ulp y)) :: real) \<le> of_int (round_half_even (y / b64_ulp y))"
    by simp
  then show ?thesis
    unfolding b64_nearest_def q using b64_ulp_pos [of y] by (simp add: mult_left_mono)
next
  case False
  with b64_exponent_mono [OF assms] have lt: "b64_exponent x < b64_exponent y" by simp
  from assms have nz: "x \<noteq> 0" "y \<noteq> 0" by simp_all
  have ex: "- 1022 \<le> b64_exponent x"
    using nz by (simp add: b64_exponent_def)
  have "2 powi (b64_exponent x + 1) = of_int (2 ^ 53) * b64_ulp x"
    using pow2_53 [of "b64_exponent x"] by (simp add: b64_ulp_def)
  moreover from b64_exponent_upper [OF nz(1)] assms(1) have "x \<le> 2 powi (b64_exponent x + 1)"
    by simp
  ultimately have a: "b64_nearest x \<le> 2 powi (b64_exponent x + 1)"
    using b64_nearest_le_multiple [of x "2 ^ 53"] by simp
  have "2 powi b64_exponent y = of_int (2 ^ 52) * b64_ulp y"
    using pow2_52 [of "b64_exponent y"] by (simp add: b64_ulp_def)
  moreover from b64_exponent_lower [OF nz(2)] lt ex assms have "2 powi b64_exponent y \<le> y"
    by simp
  ultimately have b: "2 powi b64_exponent y \<le> b64_nearest y"
    using b64_nearest_ge_multiple [of "2 ^ 52" y] by simp
  from lt have "(2::real) powi (b64_exponent x + 1) \<le> 2 powi b64_exponent y"
    by (intro power_int_increasing) auto
  with a b show ?thesis by linarith
qed

lemma b64_nearest_mono:
  assumes "x \<le> y"
  shows "b64_nearest x \<le> b64_nearest y"
proof -
  consider "0 < x" | "x \<le> 0" "0 \<le> y" | "y < 0" by linarith
  then show ?thesis
  proof cases
    case 1
    then show ?thesis using assms by (rule b64_nearest_mono_pos)
  next
    case 2
    with b64_nearest_nonpos [of x] b64_nearest_nonneg [of y] show ?thesis by linarith
  next
    case 3
    with assms have "0 < - y" "- y \<le> - x" by simp_all
    then have "b64_nearest (- y) \<le> b64_nearest (- x)" by (rule b64_nearest_mono_pos)
    then show ?thesis by (simp add: b64_nearest_minus)
  qed
qed

lemma round_half_even_near:
  assumes "\<bar>a - of_int m\<bar> < 1 / 2"
  shows "round_half_even a = m"
proof (cases "of_int m \<le> a")
  case True
  with assms have "\<lfloor>a\<rfloor> = m" by (intro floor_unique) auto
  with assms True show ?thesis by (simp add: round_half_even_def Let_def)
next
  case False
  with assms have "\<lfloor>a\<rfloor> = m - 1" by (intro floor_unique) auto
  with assms False show ?thesis by (simp add: round_half_even_def Let_def)
qed

lemma b64_exponent_eq:
  assumes "2 powi e \<le> \<bar>x\<bar>" and "\<bar>x\<bar> < 2 powi (e + 1)" and "- 1022 \<le> e"
  shows "b64_exponent x = e"
proof -
  have "0 < (2::real) powi e" by simp
  with assms(1) have "0 < \<bar>x\<bar>" by linarith
  then have nz: "x \<noteq> 0" by simp
  from floor_log2_ge [OF assms(1)] floor_log2_less [OF nz assms(2)]
  have "\<lfloor>log 2 \<bar>x\<bar>\<rfloor> = e" by simp
  with nz assms(3) show ?thesis by (simp add: b64_exponent_def)
qed

text \<open>A large value absorbs a small addend.\<close>

lemma b64_nearest_absorb:
  assumes k: "53 \<le> k" and t: "0 \<le> t" "2 * t < 2 ^ (k - 52)"
  shows "b64_nearest (2 ^ k + t) = 2 ^ k"
proof -
  let ?x = "(2::real) ^ k + t"
  have "(2::real) ^ (k - 52) * 2 ^ 52 = 2 ^ (k - 52 + 52)"
    by (simp only: power_add)
  with k have p: "(2::real) ^ (k - 52) * 2 ^ 52 = 2 ^ k"
    by simp
  have "(2::real) ^ (k - 52) \<le> 2 ^ k"
    by (intro power_increasing) auto
  with t have lt: "t < 2 ^ k" by linarith
  have "2 powi int k \<le> \<bar>?x\<bar>" "\<bar>?x\<bar> < 2 powi (int k + 1)"
    using t lt by (simp_all add: power_int_add)
  then have "b64_exponent ?x = int k"
    by (rule b64_exponent_eq) simp
  then have "b64_ulp ?x = 2 powi (int k - 52)"
    by (simp add: b64_ulp_def)
  also have "\<dots> = 2 ^ (k - 52)"
    using k by (simp add: power_int_def nat_diff_distrib)
  finally have u: "b64_ulp ?x = 2 ^ (k - 52)" .
  have "?x / 2 ^ (k - 52) = 2 ^ 52 + t / 2 ^ (k - 52)"
    using p by (simp add: field_simps)
  moreover have "0 \<le> t / 2 ^ (k - 52)" "t / 2 ^ (k - 52) < 1 / 2"
    using t by (simp_all add: field_simps)
  ultimately have "\<bar>?x / 2 ^ (k - 52) - of_int (2 ^ 52)\<bar> < 1 / 2"
    by (simp only: of_int_power of_int_numeral)
  then have "round_half_even (?x / 2 ^ (k - 52)) = 2 ^ 52"
    by (rule round_half_even_near)
  then show ?thesis
    unfolding b64_nearest_def u using p by simp
qed

lemma b64_nearest_nat:
  assumes "n < 2 ^ 53"
  shows "b64_nearest (real n) = real n"
proof -
  from assms have "\<bar>int n\<bar> < 2 ^ 53" by simp
  from b64_nearest_int [OF this] show ?thesis by simp
qed

text \<open>Results in range are finite.\<close>

lemma b64_round_bounded:
  assumes "\<bar>x\<bar> < 2 ^ k" and "k \<le> 1023"
  shows "b64_round x = Fin (b64_nearest x)"
proof -
  from assms(2) have "(2::real) ^ k \<le> 2 ^ 1023"
    by (intro power_increasing) auto
  moreover have "(2::real) ^ k / 2 ^ 53 \<le> 2 ^ k" by (simp add: divide_le_eq)
  ultimately have "\<bar>b64_nearest x\<bar> < 2 ^ 1023 + 2 ^ 1023"
    using b64_nearest_near [OF assms(1)] assms(1) by linarith
  then have "\<bar>b64_nearest x\<bar> < 2 ^ 1024" by simp
  then show ?thesis by (auto simp add: b64_round_def Let_def)
qed

lemma b64_round_near:
  assumes "\<bar>x\<bar> < 2 ^ 20"
  shows "\<exists>y. b64_round x = Fin y \<and> \<bar>y - x\<bar> \<le> 1 / 2 ^ 33"
proof -
  have "b64_round x = Fin (b64_nearest x)"
    using assms by (rule b64_round_bounded) simp
  moreover have "\<bar>b64_nearest x - x\<bar> \<le> 1 / 2 ^ 33"
    using b64_nearest_near [OF assms] by simp
  ultimately show ?thesis by blast
qed

lemma b64_round_exact:
  assumes "\<bar>n\<bar> < 2 ^ 53" and "- 1074 \<le> j" and "j \<le> 970"
  shows "b64_round (of_int n * 2 powi j) = Fin (of_int n * 2 powi j)"
proof -
  let ?x = "of_int n * (2::real) powi j"
  have e: "b64_nearest ?x = ?x"
    using assms(1,2) by (rule b64_nearest_exact)
  have "\<bar>?x\<bar> = of_int \<bar>n\<bar> * 2 powi j" by (simp add: abs_mult)
  also have "\<dots> \<le> 2 ^ 53 * 2 powi j"
  proof -
    from assms(1) have "(of_int \<bar>n\<bar> :: real) \<le> of_int (2 ^ 53)" by (simp only: of_int_le_iff)
    then show ?thesis by (intro mult_right_mono) auto
  qed
  also have "\<dots> \<le> 2 ^ 53 * 2 powi 970"
    using assms(3) by (intro mult_left_mono power_int_increasing) auto
  also have "\<dots> < 2 ^ 1024" by simp
  finally have "\<bar>?x\<bar> < 2 ^ 1024" .
  then show ?thesis by (auto simp add: b64_round_def Let_def e)
qed

lemma b64_round_int:
  assumes "\<bar>n\<bar> < 2 ^ 53"
  shows "b64_round (of_int n) = Fin (of_int n)"
  using b64_round_exact [OF assms, of 0] by simp

lemma b64_round_nat:
  assumes "n < 2 ^ 53"
  shows "b64_round (real n) = Fin (real n)"
proof -
  from assms have "\<bar>int n\<bar> < 2 ^ 53" by simp
  from b64_round_int [OF this] show ?thesis by simp
qed

lemma b64_round_0 [simp]: "b64_round 0 = Fin 0"
  using b64_round_int [of 0] by simp

lemma b64_round_1 [simp]: "b64_round 1 = Fin 1"
  using b64_round_int [of 1] by simp

lemma b64_round_numeral [simp]:
  "(numeral w :: int) < 2 ^ 53 \<Longrightarrow> b64_round (numeral w) = Fin (numeral w)"
  using b64_round_int [of "numeral w"] by simp

lemma b64_round_neg_numeral [simp]:
  "(numeral w :: int) < 2 ^ 53 \<Longrightarrow> b64_round (- numeral w) = Fin (- numeral w)"
  using b64_round_int [of "- numeral w"] by simp

text \<open>Fractions with a power of two below: halves, quarters and so on.\<close>

lemma b64_round_dyadic:
  assumes "\<bar>n\<bar> < 2 ^ 53" and "j \<le> 1074"
  shows "b64_round (of_int n / 2 ^ j) = Fin (of_int n / 2 ^ j)"
proof -
  have "of_int n / (2::real) ^ j = of_int n * 2 powi (- int j)"
    by (simp add: power_int_minus field_simps)
  moreover have "b64_round (of_int n * 2 powi (- int j)) = Fin (of_int n * 2 powi (- int j))"
    using assms by (intro b64_round_exact) auto
  ultimately show ?thesis by simp
qed

lemma b64_round_half [simp]: "b64_round (1 / 2) = Fin (1 / 2)"
  using b64_round_dyadic [of 1 1] by simp

lemma b64_round_halves [simp]:
  "(numeral w :: int) < 2 ^ 53 \<Longrightarrow> b64_round (numeral w / 2) = Fin (numeral w / 2)"
  "(numeral w :: int) < 2 ^ 53 \<Longrightarrow> b64_round (- (numeral w / 2)) = Fin (- (numeral w / 2))"
  "b64_round (- (1 / 2)) = Fin (- (1 / 2))"
  using b64_round_dyadic [of "numeral w" 1] b64_round_dyadic [of "- numeral w" 1]
    b64_round_dyadic [of "- 1" 1]
  by simp_all

lemma b64_round_quarters [simp]:
  "b64_round (1 / 4) = Fin (1 / 4)"
  "b64_round (- (1 / 4)) = Fin (- (1 / 4))"
  using b64_round_dyadic [of 1 2] b64_round_dyadic [of "- 1" 2]
  by simp_all

lemma b64_round_nearE:
  assumes "\<bar>x\<bar> < 1000000"
  obtains y where "b64_round x = Fin y" and "x - 1 / 1000000 \<le> y" and "y \<le> x + 1 / 1000000"
proof -
  from assms have "\<bar>x\<bar> < 2 ^ 20" by simp
  from b64_round_near [OF this]
  obtain y where y: "b64_round x = Fin y" "\<bar>y - x\<bar> \<le> 1 / 2 ^ 33" by blast
  have "(1::real) / 2 ^ 33 \<le> 1 / 1000000" by simp
  with y(2) have "x - 1 / 1000000 \<le> y" "y \<le> x + 1 / 1000000" by linarith+
  with y(1) show ?thesis by (rule that)
qed

text \<open>
  The value of one rounding, from the exponent of the exact result and the significand
  it rounds to.
\<close>

lemma b64_round_eval:
  assumes "2 powi e \<le> \<bar>x\<bar>" and "\<bar>x\<bar> < 2 powi (e + 1)" and "- 1022 \<le> e" and "e \<le> 1022"
    and "round_half_even (x / 2 powi (e - 52)) = m" and "\<bar>m\<bar> \<le> 2 ^ 53"
  shows "b64_round x = Fin (of_int m * 2 powi (e - 52))"
proof -
  have "b64_exponent x = e"
    using assms(1-3) by (rule b64_exponent_eq)
  then have u: "b64_ulp x = 2 powi (e - 52)"
    by (simp add: b64_ulp_def)
  have n: "b64_nearest x = of_int m * 2 powi (e - 52)"
    by (simp add: b64_nearest_def u assms(5))
  have "\<bar>of_int m * (2::real) powi (e - 52)\<bar> = of_int \<bar>m\<bar> * 2 powi (e - 52)"
    by (simp add: abs_mult)
  also have "\<dots> \<le> 2 ^ 53 * 2 powi (e - 52)"
  proof -
    from assms(6) have "(of_int \<bar>m\<bar> :: real) \<le> of_int (2 ^ 53)" by (simp only: of_int_le_iff)
    then show ?thesis by (intro mult_right_mono) auto
  qed
  also have "\<dots> \<le> 2 ^ 53 * 2 powi 970"
    using assms(4) by (intro mult_left_mono power_int_increasing) auto
  also have "\<dots> < 2 ^ 1024" by simp
  finally have "\<bar>b64_nearest x\<bar> < 2 ^ 1024" by (simp only: n)
  then show ?thesis by (auto simp add: b64_round_def Let_def n)
qed

section \<open>Numbers and bytes\<close>

lemma plus_NaN_right: "a + NaN = NaN"
  by (cases a) simp_all

lemma times_NaN_right: "a * NaN = NaN"
  by (cases a) simp_all

lemma round_half_even_nat: "round_half_even (real n) = int n"
  by (simp add: round_half_even_def)

lemma toUint8Clamp_byte: "toUint8Clamp (Fin (real (unat (v :: byte)))) = v"
proof -
  have lt: "unat v < 256"
    using unsigned_less [of v] by simp
  show ?thesis
  proof (cases "255 \<le> unat v")
    case True
    with lt have "unat v = 255" by simp
    then have "unat v = unat (255 :: byte)" by simp
    then have "v = 255" by (simp only: word_unat_eq_iff)
    then show ?thesis by simp
  next
    case False
    have "word_of_int (int (unat v)) = v" by simp
    with False show ?thesis
      by (auto simp del: of_nat_unat simp add: round_half_even_nat unat_eq_0 simp flip: word_unat_eq_iff) 
  qed
qed

text \<open>
  Storing is stable under a small error: any number closer than one half to a byte is
  stored as that byte.
\<close>

lemma toUint8Clamp_near:
  assumes "\<bar>a - real (unat (v :: byte))\<bar> < 1 / 2"
  shows "toUint8Clamp (Fin a) = v"
proof -
  define n where "n = unat v"
  have lt: "n < 256"
    using unsigned_less [of v] by (simp add: n_def)
  have v: "word_of_int (int n) = v" by (simp add: n_def)
  from assms have a: "real n - 1 / 2 < a" "a < real n + 1 / 2"
    unfolding n_def by linarith+
  consider "a \<le> 0" | "255 \<le> a" | "0 < a" "a < 255" by linarith
  then show ?thesis
  proof cases
    case 1
    with a have "n = 0" by linarith
    with v have "v = 0" by simp
    with 1 show ?thesis by simp
  next
    case 2
    with a lt have "n = 255" by linarith
    with v have "v = 255" by simp
    with 2 show ?thesis by simp
  next
    case 3
    have "round_half_even a = int n"
    proof (cases "a < real n")
      case True
      with a have "\<lfloor>a\<rfloor> = int n - 1" by (intro floor_unique) auto
      with a show ?thesis by (simp add: round_half_even_def Let_def)
    next
      case False
      with a have "\<lfloor>a\<rfloor> = int n" by (intro floor_unique) auto
      with a show ?thesis by (simp add: round_half_even_def Let_def)
    qed
    with 3 v show ?thesis by simp
  qed
qed

lemma length_wr: "length (wr d i v) = length d"
  by (simp add: wr_def)
section \<open>Properties of the layer stack\<close>

lemma findIndex_head: "P e \<Longrightarrow> findIndex P (e # es) = 0"
  by (simp add: findIndex_def)

text \<open>
  C5. \<open>mergeDown\<close> called with the id of the bottom-most layer leaves the document as it
  is: the same layers with the same contents, the same active index, the same saved flag.
  Nothing is raised: \<open>mergeDown\<close> has no failing branch.
\<close>

theorem mergeDown_bottom_noop:
  assumes "layers doc = bottomLayer # upper" and "layer_id bottomLayer = layerId"
  shows "mergeDown host doc layerId = doc"
proof -
  have "findIndex (\<lambda>layer. layer_id layer = layerId) (layers doc) = 0"
    using assms by (simp add: findIndex_head)
  then show ?thesis by (simp add: mergeDown_def)
qed

theorem mergeDown_bottom_noop_witness:
  "mergeDown demo_host demo_doc ''layer_1'' = demo_doc
   \<and> length (layers (mergeDown demo_host demo_doc ''layer_1'')) = 3"
proof -
  have l: "layers demo_doc = demo_layer ''layer_1'' ''Background''
             # [demo_layer ''layer_2'' ''Layer 1'', demo_layer ''layer_3'' ''Layer 2'']"
    by (simp add: demo_doc_def)
  have i: "layer_id (demo_layer ''layer_1'' ''Background'') = ''layer_1''"
    by (simp add: demo_layer_def)
  have "mergeDown demo_host demo_doc ''layer_1'' = demo_doc"
    by (rule mergeDown_bottom_noop [OF l i])
  then show ?thesis by (simp add: demo_doc_def)
qed



section \<open>Properties of the filter dispatch\<close>

text \<open>
  C4. For a filter type the dispatch has no case for, \<open>processImageData\<close> returns an image
  with the width, the height and the bytes of its input, whatever the options, and
  throws nothing.
\<close>

theorem processImageData_unknown_noop:
  assumes "wf_image imageData" and "filterType \<notin> set dispatched"
  shows "processImageData rnd imageData filterType options = Inr imageData"
  using assms
  by (simp add: processImageData_def dispatched_def new_ImageData_def wf_image_def Let_def)

theorem processImageData_unknown_noop_witness:
  "wf_image one_pixel \<and> ''contrast'' \<notin> set dispatched
   \<and> processImageData (\<lambda>k. Fin 0) one_pixel ''contrast'' no_options = Inr one_pixel"
proof -
  have w: "wf_image one_pixel"
    by (simp add: wf_image_def one_pixel_def)
  have t: "''contrast'' \<notin> set dispatched"
    by (simp add: dispatched_def)
  from w t processImageData_unknown_noop [OF w t] show ?thesis by simp
qed

text \<open>
  C9. The dispatch cannot tell an option given as 0 from a missing one: a blur radius of
  0 runs the blur with radius 5, and a noise amount of 0 runs the noise filter with
  amount 25, exactly as when the key is absent.
\<close>

theorem processImageData_zero_is_default:
  "processImageData rnd imageData ''blur'' (options\<lparr>opt_blur := Some (Fin 0)\<rparr>)
     = applyBlur imageData (Fin 5)
   \<and> processImageData rnd imageData ''blur'' (options\<lparr>opt_blur := None\<rparr>)
     = applyBlur imageData (Fin 5)
   \<and> processImageData rnd imageData ''noise'' (options\<lparr>opt_amount := Some (Fin 0)\<rparr>)
     = new_ImageData
         (applyNoiseFilter rnd (data imageData) (Fin 25) (or_bool (opt_uniform options) False))
         (width imageData) (height imageData)
   \<and> processImageData rnd imageData ''noise'' (options\<lparr>opt_amount := None\<rparr>)
     = new_ImageData
         (applyNoiseFilter rnd (data imageData) (Fin 25) (or_bool (opt_uniform options) False))
         (width imageData) (height imageData)"
  by (simp add: processImageData_def or_num_def falsy_def Let_def)

section \<open>Blur with radius 0\<close>

text \<open>
  With radius 0 the kernel has one tap, and its weight is \<open>exp(-0/0)\<close>, which is
  \<open>NaN\<close>, before and after the normalisation. Every sum of every pixel is then
  \<open>NaN\<close>, and \<open>NaN / NaN\<close> is stored as 0: on every well-formed image the result is
  the image with all bytes 0.
\<close>

lemma generateGaussianKernel_0: "generateGaussianKernel (Fin 0) = Inr [NaN]"
  by (simp add: generateGaussianKernel_def Let_def inf_of_sign_def minus_jsnum_def)

lemma blur_taps_NaN: "blur_taps d w h [NaN] 0 x y = (NaN, NaN, NaN, NaN, NaN)"
  by (simp add: blur_taps_def kget_def Let_def plus_NaN_right times_NaN_right)

lemma blur_pixel_NaN: "blur_pixel d w h [NaN] 0 y x (replicate n 0) = replicate n 0"
proof -
  have "(replicate n (0 :: byte))[i := 0] = replicate n 0" for i
  proof (cases "i < n")
    case True
    then show ?thesis
      using list_update_id [of "replicate n (0 :: byte)" i] by simp
  next
    case False
    then show ?thesis by (simp add: list_update_beyond)
  qed
  then show ?thesis
    by (simp add: blur_pixel_def blur_taps_NaN wr_def Let_def)
qed

lemma applyBlur_radius_0_zeros:
  assumes "wf_image img"
  shows "applyBlur img (Fin 0) = Inr (img\<lparr>data := replicate (length (data img)) 0\<rparr>)"
proof -
  let ?z = "replicate (length (data img)) (0 :: byte)"
  let ?px = "blur_pixel (data img) (width img) (height img) [NaN] 0"
  have row: "fold (?px y) xs ?z = ?z" for y xs
    by (induction xs) (simp_all add: blur_pixel_NaN)
  have "fold (\<lambda>y. fold (?px y) [0..<width img]) ys ?z = ?z" for ys
    by (induction ys) (simp_all add: row)
  with assms show ?thesis
    by (simp add: applyBlur_def generateGaussianKernel_0 new_ImageData_def wf_image_def Let_def)
qed

text \<open>
  C1. The blur with radius 0 is not the identity: the kernel is \<open>[NaN]\<close>, and on the
  two-pixel image all eight bytes, the alpha bytes too, become 0.
\<close>

theorem applyBlur_radius_0_clears:
  "generateGaussianKernel (Fin 0) = Inr [NaN]
   \<and> applyBlur two_pixels (Fin 0)
       = Inr \<lparr> data = [0, 0, 0, 0, 0, 0, 0, 0], width = 2, height = 1 \<rparr>
   \<and> applyBlur two_pixels (Fin 0) \<noteq> Inr two_pixels"
proof -
  have n: "[0..<2] = [0, Suc 0]"
    by (simp add: upt_rec)
  have "applyBlur two_pixels (Fin 0)
          = Inr \<lparr> data = [0, 0, 0, 0, 0, 0, 0, 0], width = 2, height = 1 \<rparr>"
    by (simp add: applyBlur_def generateGaussianKernel_0 n two_pixels_def blur_pixel_def
        blur_taps_def kget_def rd_def wr_def clamp_coord_def new_ImageData_def Let_def)
  then show ?thesis
    by (simp add: generateGaussianKernel_0 two_pixels_def)
qed

section \<open>The hue shift\<close>

text \<open>Halving and doubling \<open>Math.PI\<close> is exact.\<close>

lemma Math_PI_halved: "b64_round (- (884279719003555 / 562949953421312)) = Fin (- (884279719003555 / 562949953421312))"
  using b64_round_dyadic [of "- 884279719003555" 49] by simp

lemma Math_PI_doubled: "b64_round (884279719003555 / 140737488355328) = Fin (884279719003555 / 140737488355328)"
  using b64_round_dyadic [of "884279719003555" 47] by simp

text \<open>
  C2. The shifted hue is not always brought into \<open>[0,1)\<close>. The remainder keeps the sign
  of the dividend: pure red has hue 0, a hue parameter of \<open>-90\<close> shifts it to \<open>-1/4\<close>,
  and \<open>-1/4 % 1\<close> is \<open>-1/4\<close>. Its sector is \<open>-2\<close>, which no case of the
  back-conversion matches, and the red pixel comes out black.
\<close>

theorem shift_hue_negative:
  "hsl_of_rgb (Fin 1) (Fin 0) (Fin 0) = (Fin 0, Fin 1, Fin (1 / 2))
   \<and> shift_hue (Fin 0) ((Fin (- 90) / Fin 180) * Math_PI) = Fin (- 1 / 4)
   \<and> applyHueSaturation [255, 0, 0, 255] (Fin (- 90)) (Fin 0) = [0, 0, 0, 255]"
proof -
  have a: "hsl_of_rgb (Fin 1) (Fin 0) (Fin 0) = (Fin 0, Fin 1, Fin (1 / 2))"
    by (simp add: hsl_of_rgb_def Math_max3_def Math_min3_def Math_max_def Math_min_def
        js_strict_eq_def js_greater_def minus_jsnum_def Let_def)
  have b: "shift_hue (Fin 0) ((Fin (- 90) / Fin 180) * Math_PI) = Fin (- 1 / 4)"
    by (simp add: shift_hue_def Math_PI_def trunc_def Math_PI_halved Math_PI_doubled)
  have c: "rgb_of_hsl (Fin (- 1 / 4)) (Fin 1) (Fin (1 / 2)) = (Fin 0, Fin 0, Fin 0)"
    by (simp add: rgb_of_hsl_def js_strict_eq_def minus_jsnum_def trunc_def Let_def)
  have "applyHueSaturation [255, 0, 0, 255] (Fin (- 90)) (Fin 0) = [0, 0, 0, 255]"
    using a b c
    by (simp add: applyHueSaturation_def for_each_pixel_def pixel_indices_def Let_def rd_def
        wr_def Math_max_def Math_min_def)
  with a b show ?thesis by simp
qed

section \<open>The contrast factor\<close>

text \<open>
  C3, as the code has it. \<open>applyBrightnessContrast\<close> does not clamp its contrast: the
  factor is computed from the value it is given. At 259 the divisor is zero and the
  factor is infinite; the result differs from the one for contrast 100, which a clamp to
  \<open>[-100,100]\<close> would have produced.
\<close>

theorem contrast_not_clamped:
  "contrastFactor (Fin 259) = PInf
   \<and> applyBrightnessContrast [200, 100, 128, 255] (Fin 0) (Fin 259) = [255, 0, 0, 255]
   \<and> applyBrightnessContrast [200, 100, 128, 255] (Fin 0) (Fin 100) = [255, 65, 128, 255]"
proof -
  have a: "contrastFactor (Fin 259) = PInf"
    by (simp add: contrastFactor_def minus_jsnum_def inf_of_sign_def)
  have c: "applyBrightnessContrast [200, 100, 128, 255] (Fin 0) (Fin 259) = [255, 0, 0, 255]"
    by (simp add: applyBrightnessContrast_def for_each_pixel_def pixel_indices_def Let_def
        rd_def wr_def a Math_max_def Math_min_def minus_jsnum_def inf_of_sign_def)
  have "\<bar>18389 / 8109 :: real\<bar> < 1000000" by simp
  then obtain y where y: "b64_round (18389 / 8109) = Fin y"
    "18389 / 8109 - 1 / 1000000 \<le> y" "y \<le> 18389 / 8109 + 1 / 1000000"
    by (rule b64_round_nearE)
  have b: "contrastFactor (Fin 100) = Fin y"
    by (simp add: contrastFactor_def minus_jsnum_def y)
  from y have "\<bar>y * 72\<bar> < 1000000" by simp
  then obtain z1 where z1: "b64_round (y * 72) = Fin z1"
    "y * 72 - 1 / 1000000 \<le> z1" "z1 \<le> y * 72 + 1 / 1000000"
    by (rule b64_round_nearE)
  with y have "\<bar>z1 + 128\<bar> < 1000000" by simp
  then obtain w1 where w1: "b64_round (z1 + 128) = Fin w1"
    "z1 + 128 - 1 / 1000000 \<le> w1" "w1 \<le> z1 + 128 + 1 / 1000000"
    by (rule b64_round_nearE)
  from y z1 w1 have w1': "255 < w1" by linarith
  from y have "\<bar>- (y * 28)\<bar> < 1000000" by simp
  then obtain z2 where z2: "b64_round (- (y * 28)) = Fin z2"
    "- (y * 28) - 1 / 1000000 \<le> z2" "z2 \<le> - (y * 28) + 1 / 1000000"
    by (rule b64_round_nearE)
  with y have "\<bar>z2 + 128\<bar> < 1000000" by simp
  then obtain w2 where w2: "b64_round (z2 + 128) = Fin w2"
    "z2 + 128 - 1 / 1000000 \<le> w2" "w2 \<le> z2 + 128 + 1 / 1000000"
    by (rule b64_round_nearE)
  from y z2 w2 have w2': "64 + 1 / 2 < w2" "w2 < 65" by linarith+
  then have "\<bar>w2 - real (unat (65 :: byte))\<bar> < 1 / 2" by simp
  then have s: "toUint8Clamp (Fin w2) = 65" by (rule toUint8Clamp_near)
  have s': "toUint8Clamp (Fin 255) = 255" "toUint8Clamp (Fin 128) = 128"
    by (simp_all add: round_half_even_def)
  have d: "applyBrightnessContrast [200, 100, 128, 255] (Fin 0) (Fin 100) = [255, 65, 128, 255]"
    using w1' w2'
    by (simp add: applyBrightnessContrast_def for_each_pixel_def pixel_indices_def Let_def
        rd_def wr_def b Math_max_def Math_min_def minus_jsnum_def z1 w1 z2 w2 s s'
        del: toUint8Clamp.simps)
  from a c d show ?thesis by simp
qed

text \<open>
  C3, amended. The transform does not clamp, so the divisor is kept away from zero only
  by the input itself: for every contrast in \<open>[-100,100]\<close>, the range of the dialog's
  slider, the divisor \<open>255 * (259 - contrast)\<close> is a finite number above 40000 and the
  factor is a finite number between 0 and 3.
\<close>

theorem contrastFactor_in_range:
  assumes "- 100 \<le> c" and "c \<le> 100"
  shows "\<exists>d f. Fin 255 * (Fin 259 - Fin c) = Fin d \<and> 40000 < d
            \<and> contrastFactor (Fin c) = Fin f \<and> 0 < f \<and> f < 3"
proof -
  from assms have "\<bar>c + 255\<bar> < 1000000" by simp
  then obtain a where a: "b64_round (c + 255) = Fin a" "c + 255 - 1 / 1000000 \<le> a" "a \<le> c + 255 + 1 / 1000000"
    by (rule b64_round_nearE)
  with assms have a': "154 < a" "a < 356" by linarith+
  then have "\<bar>259 * a\<bar> < 1000000" by simp
  then obtain n where n: "b64_round (259 * a) = Fin n" "259 * a - 1 / 1000000 \<le> n" "n \<le> 259 * a + 1 / 1000000"
    by (rule b64_round_nearE)
  with a' have n': "39000 < n" "n < 93000" by linarith+
  from assms have "\<bar>259 - c\<bar> < 1000000" by simp
  then obtain b where b: "b64_round (259 - c) = Fin b" "259 - c - 1 / 1000000 \<le> b" "b \<le> 259 - c + 1 / 1000000"
    by (rule b64_round_nearE)
  with assms have b': "158 < b" "b < 360" by linarith+
  then have "\<bar>255 * b\<bar> < 1000000" by simp
  then obtain d where d: "b64_round (255 * b) = Fin d" "255 * b - 1 / 1000000 \<le> d" "d \<le> 255 * b + 1 / 1000000"
    by (rule b64_round_nearE)
  with b' have d': "40000 < d" "d < 92000" by linarith+
  from n' d' have q: "1 / 3 < n / d" "n / d < 5 / 2"
    by (simp_all add: pos_less_divide_eq pos_divide_less_eq)
  then have "\<bar>n / d\<bar> < 1000000" by linarith
  then obtain f where f: "b64_round (n / d) = Fin f" "n / d - 1 / 1000000 \<le> f" "f \<le> n / d + 1 / 1000000"
    by (rule b64_round_nearE)
  with q have f': "0 < f" "f < 3" by linarith+
  have "Fin 255 * (Fin 259 - Fin c) = Fin d"
    by (simp add: minus_jsnum_def b d)
  moreover have "contrastFactor (Fin c) = Fin f"
    using d' by (simp add: contrastFactor_def minus_jsnum_def a n b d f)
  ultimately show ?thesis using d' f' by blast
qed

theorem contrastFactor_in_range_witness:
  "(- 100 :: real) \<le> 100 \<and> (100 :: real) \<le> 100
   \<and> (\<exists>d f. Fin 255 * (Fin 259 - Fin 100) = Fin d \<and> 40000 < d
          \<and> contrastFactor (Fin 100) = Fin f \<and> 0 < f \<and> f < 3)"
  using contrastFactor_in_range [of 100] by simp

text \<open>
  Outside that range the factor need not be finite even where the divisor is not zero:
  at contrast \<open>2^1016\<close> the dividend overflows and the factor is \<open>-Infinity\<close>.
\<close>

lemma contrastFactor_overflow: "contrastFactor (Fin (2 ^ 1016)) = NInf"
proof -
  have "b64_nearest (2 ^ 1016 + 255) = 2 ^ 1016"
    by (rule b64_nearest_absorb) simp_all
  then have a: "Fin (2 ^ 1016) + Fin 255 = Fin (2 ^ 1016)"
    by (simp add: b64_round_def Let_def)
  have "b64_nearest (of_int 259 * 2 powi 1016) = of_int 259 * 2 powi 1016"
    by (rule b64_nearest_exact) simp_all
  then have "b64_nearest (259 * 2 ^ 1016) = 259 * 2 ^ 1016"
    by simp
  then have b: "Fin 259 * Fin (2 ^ 1016) = PInf"
    by (simp add: b64_round_def Let_def)
  define y where "y = b64_nearest (259 - 2 ^ 1016)"
  have "b64_nearest (of_int (- 1) * 2 powi 1016) = of_int (- 1) * 2 powi 1016"
    by (rule b64_nearest_exact) simp_all
  then have lo: "b64_nearest (- (2 ^ 1016)) = - (2 ^ 1016)"
    by simp
  have hi: "b64_nearest (- 1) = - 1"
    using b64_nearest_int [of "- 1"] by simp
  have "b64_nearest (- (2 ^ 1016)) \<le> y" "y \<le> b64_nearest (- 1)"
    unfolding y_def by (rule b64_nearest_mono, simp)+
  then have y: "- (2 ^ 1016) \<le> y" "y \<le> - 1"
    by (simp_all only: lo hi)
  have "(2::real) ^ 1016 < 2 ^ 1024" by simp
  with y have "\<not> 2 ^ 1024 \<le> y" "\<not> y \<le> - (2 ^ 1024)" by linarith+
  then have c: "Fin 259 - Fin (2 ^ 1016) = Fin y"
    by (simp add: minus_jsnum_def b64_round_def Let_def y_def)
  define z where "z = b64_nearest (255 * y)"
  have "b64_nearest (of_int (- 255) * 2 powi 1016) = of_int (- 255) * 2 powi 1016"
    by (rule b64_nearest_exact) simp_all
  then have lo': "b64_nearest (- (255 * 2 ^ 1016)) = - (255 * 2 ^ 1016)"
    by simp
  have hi': "b64_nearest (- 255) = - 255"
    using b64_nearest_int [of "- 255"] by simp
  have "b64_nearest (- (255 * 2 ^ 1016)) \<le> z" "z \<le> b64_nearest (- 255)"
    unfolding z_def using y by (intro b64_nearest_mono, linarith)+
  then have z: "- (255 * 2 ^ 1016) \<le> z" "z \<le> - 255"
    by (simp_all only: lo' hi')
  have "(255::real) * 2 ^ 1016 < 2 ^ 1024" by simp
  with z have "\<not> 2 ^ 1024 \<le> z" "\<not> z \<le> - (2 ^ 1024)" "z < 0" by linarith+
  then have d: "Fin 255 * Fin y = Fin z" and neg: "z < 0"
    by (simp_all add: b64_round_def Let_def z_def)
  have "contrastFactor (Fin (2 ^ 1016)) = PInf / Fin z"
    by (simp only: contrastFactor_def a b c d)
  also have "\<dots> = NInf"
    using neg by simp
  finally show ?thesis .
qed

section \<open>Grayscale is idempotent\<close>

text \<open>
  The weights are rounded literals and every product and sum is rounded, so the weighted
  sum of three equal bytes \<open>v\<close> need not be exactly \<open>v\<close>; it stays closer than one half to it.
\<close>

lemma scaled_literal_bounds:
  fixes v c k e :: real
  assumes "0 \<le> v" and "v \<le> 255" and "k - e \<le> c" and "c \<le> k + e"
  shows "v * k - 255 * e \<le> v * c" and "v * c \<le> v * k + 255 * e"
proof -
  from assms(3,4) have e: "0 \<le> e" by linarith
  have "v * (k - e) \<le> v * c" "v * c \<le> v * (k + e)"
    using assms by (simp_all add: mult_left_mono)
  moreover have "v * e \<le> 255 * e"
    using assms(2) e by (rule mult_right_mono)
  ultimately show "v * k - 255 * e \<le> v * c" and "v * c \<le> v * k + 255 * e"
    by (simp_all add: algebra_simps)
qed

lemma gray_sum_near:
  fixes v :: byte
  shows "\<exists>a. Fin (real (unat v)) * js_literal 0.299 + Fin (real (unat v)) * js_literal 0.587
               + Fin (real (unat v)) * js_literal 0.114 = Fin a
             \<and> \<bar>a - real (unat v)\<bar> < 1 / 2"
proof -
  define x where "x = real (unat v)"
  have "unat v < 256"
    using unsigned_less [of v] by simp
  then have x: "0 \<le> x" "x \<le> 255"
    by (simp_all add: x_def del: of_nat_unat)
  have "\<bar>0.299 :: real\<bar> < 1000000" by simp
  then obtain c1 where c1: "b64_round 0.299 = Fin c1" "0.299 - 1 / 1000000 \<le> c1"
    "c1 \<le> 0.299 + 1 / 1000000"
    by (rule b64_round_nearE)
  have "\<bar>0.587 :: real\<bar> < 1000000" by simp
  then obtain c2 where c2: "b64_round 0.587 = Fin c2" "0.587 - 1 / 1000000 \<le> c2"
    "c2 \<le> 0.587 + 1 / 1000000"
    by (rule b64_round_nearE)
  have "\<bar>0.114 :: real\<bar> < 1000000" by simp
  then obtain c3 where c3: "b64_round 0.114 = Fin c3" "0.114 - 1 / 1000000 \<le> c3"
    "c3 \<le> 0.114 + 1 / 1000000"
    by (rule b64_round_nearE)
  note m1 = scaled_literal_bounds [OF x c1(2,3), simplified]
  note m2 = scaled_literal_bounds [OF x c2(2,3), simplified]
  note m3 = scaled_literal_bounds [OF x c3(2,3), simplified]
  from m1 x have "\<bar>x * c1\<bar> < 1000000" by linarith
  then obtain p1 where p1: "b64_round (x * c1) = Fin p1" "x * c1 - 1 / 1000000 \<le> p1"
    "p1 \<le> x * c1 + 1 / 1000000"
    by (rule b64_round_nearE)
  from m2 x have "\<bar>x * c2\<bar> < 1000000" by linarith
  then obtain p2 where p2: "b64_round (x * c2) = Fin p2" "x * c2 - 1 / 1000000 \<le> p2"
    "p2 \<le> x * c2 + 1 / 1000000"
    by (rule b64_round_nearE)
  from m3 x have "\<bar>x * c3\<bar> < 1000000" by linarith
  then obtain p3 where p3: "b64_round (x * c3) = Fin p3" "x * c3 - 1 / 1000000 \<le> p3"
    "p3 \<le> x * c3 + 1 / 1000000"
    by (rule b64_round_nearE)
  from m1 m2 p1 p2 x have "\<bar>p1 + p2\<bar> < 1000000" by linarith
  then obtain s where s: "b64_round (p1 + p2) = Fin s" "p1 + p2 - 1 / 1000000 \<le> s"
    "s \<le> p1 + p2 + 1 / 1000000"
    by (rule b64_round_nearE)
  from m1 m2 m3 p1 p2 p3 s x have "\<bar>s + p3\<bar> < 1000000" by linarith
  then obtain a where a: "b64_round (s + p3) = Fin a" "s + p3 - 1 / 1000000 \<le> a"
    "a \<le> s + p3 + 1 / 1000000"
    by (rule b64_round_nearE)
  have "Fin x * js_literal 0.299 + Fin x * js_literal 0.587 + Fin x * js_literal 0.114 = Fin a"
    by (simp only: js_literal_def c1 c2 c3 times_jsnum.simps plus_jsnum.simps p1 p2 p3 s a)
  moreover from m1 m2 m3 p1 p2 p3 s a have "\<bar>a - x\<bar> < 1 / 2" by linarith
  ultimately show ?thesis unfolding x_def by blast
qed

lemma grayscale_step_eq:
  "grayscale_step i d = d[i := gray_at d i, i + 1 := gray_at d i, i + 2 := gray_at d i]"
  by (simp add: grayscale_step_def gray_at_def wr_def Let_def)

lemma length_grayscale_fold: "length (fold grayscale_step is d) = length d"
  by (induction "is" arbitrary: d) (simp_all add: grayscale_step_eq)


lemma gray_at_cong:
  assumes "length d' = length d"
    and "\<And>c. c < 3 \<Longrightarrow> i + c < length d \<Longrightarrow> d' ! (i + c) = d ! (i + c)"
  shows "gray_at d' i = gray_at d i"
proof -
  have "rd d' (i + c) = rd d (i + c)" if "c < 3" for c
    using assms that by (simp add: rd_def)
  from this [of 0] this [of 1] this [of 2] show ?thesis
    by (simp add: gray_at_def)
qed

lemma grayscale_fold_nth:
  "j < length d \<Longrightarrow>
   fold grayscale_step (map (\<lambda>k. 4 * k) [0..<n]) d ! j
     = (if j div 4 < n \<and> j mod 4 \<noteq> 3 then gray_at d (4 * (j div 4)) else d ! j)"
proof (induction n arbitrary: j)
  case 0
  then show ?case by simp
next
  case (Suc n)
  let ?dn = "fold grayscale_step (map (\<lambda>k. 4 * k) [0..<n]) d"
  have len: "length ?dn = length d"
    by (rule length_grayscale_fold)
  have g: "gray_at ?dn (4 * n) = gray_at d (4 * n)"
  proof (rule gray_at_cong [OF len])
    fix c :: nat
    assume "c < 3" and "4 * n + c < length d"
    then show "?dn ! (4 * n + c) = d ! (4 * n + c)"
      using Suc.IH [of "4 * n + c"] by simp
  qed
  have step: "fold grayscale_step (map (\<lambda>k. 4 * k) [0..<Suc n]) d = grayscale_step (4 * n) ?dn"
    by simp
  have cases: "(j = 4 * n \<or> j = 4 * n + 1 \<or> j = 4 * n + 2) \<longleftrightarrow> (j div 4 = n \<and> j mod 4 \<noteq> 3)"
    by presburger
  show ?case
  proof (cases "j div 4 = n \<and> j mod 4 \<noteq> 3")
    case True
    then have j: "j = 4 * n \<or> j = 4 * n + 1 \<or> j = 4 * n + 2" using cases by simp
    have "4 * (j div 4) = 4 * n" using True by simp
    moreover have "grayscale_step (4 * n) ?dn ! j = gray_at ?dn (4 * n)"
      using j Suc.prems len by (auto simp add: grayscale_step_eq nth_list_update)
    ultimately show ?thesis using True g step by simp
  next
    case False
    then have j: "j \<noteq> 4 * n" "j \<noteq> 4 * n + 1" "j \<noteq> 4 * n + 2" using cases by auto
    have "grayscale_step (4 * n) ?dn ! j = ?dn ! j"
      using j by (simp add: grayscale_step_eq)
    with False Suc.IH [OF Suc.prems] step show ?thesis
      by (auto simp add: less_Suc_eq)
  qed
qed

lemma applyGrayscale_nth:
  assumes "j < length d"
  shows "applyGrayscale d ! j = (if j mod 4 \<noteq> 3 then gray_at d (4 * (j div 4)) else d ! j)"
proof -
  from assms have "j div 4 < (length d + 3) div 4" by presburger
  with grayscale_fold_nth [OF assms, of "(length d + 3) div 4"] show ?thesis
    by (simp add: applyGrayscale_def for_each_pixel_def pixel_indices_def)
qed

lemma length_applyGrayscale: "length (applyGrayscale d) = length d"
  by (simp add: applyGrayscale_def for_each_pixel_def length_grayscale_fold)

lemma gray_at_uniform:
  assumes "rd d i = Fin (real (unat v))" "rd d (i + 1) = Fin (real (unat v))" "rd d (i + 2) = Fin (real (unat v))"
  shows "gray_at d i = v"
proof -
  from gray_sum_near [of v] obtain a
    where "Fin (real (unat v)) * js_literal 0.299 + Fin (real (unat v)) * js_literal 0.587
             + Fin (real (unat v)) * js_literal 0.114 = Fin a"
      and "\<bar>a - real (unat v)\<bar> < 1 / 2"
    by blast
  then show ?thesis
    unfolding gray_at_def assms by (simp only: toUint8Clamp_near)
qed

lemma gray_at_short:
  assumes "length d \<le> i + 2"
  shows "gray_at d i = 0"
  using assms by (simp add: gray_at_def rd_def plus_NaN_right)

text \<open>
  C7. Grayscale is idempotent: a second pass over any byte array stores what the first
  pass stored. After the first pass the three colour bytes of a pixel are one byte
  \<open>v\<close>; the rounded weighted sum of the second pass is closer than one half to \<open>v\<close>
  and is stored as \<open>v\<close> again.
\<close>

theorem applyGrayscale_idempotent: "applyGrayscale (applyGrayscale d) = applyGrayscale d"
proof (rule nth_equalityI)
  show "length (applyGrayscale (applyGrayscale d)) = length (applyGrayscale d)"
    by (simp add: length_applyGrayscale)
next
  fix j
  assume "j < length (applyGrayscale (applyGrayscale d))"
  then have j: "j < length d" by (simp add: length_applyGrayscale)
  let ?g = "applyGrayscale d"
  have len: "length ?g = length d" by (rule length_applyGrayscale)
  show "applyGrayscale ?g ! j = ?g ! j"
  proof (cases "j mod 4 = 3")
    case True
    then show ?thesis using j len by (simp add: applyGrayscale_nth)
  next
    case False
    let ?i = "4 * (j div 4)"
    have lhs: "applyGrayscale ?g ! j = gray_at ?g ?i"
      using False j len by (simp add: applyGrayscale_nth)
    have rhs: "?g ! j = gray_at d ?i"
      using False j by (simp add: applyGrayscale_nth)
    show ?thesis
    proof (cases "?i + 2 < length d")
      case True
      have "rd ?g (?i + c) = Fin (real (unat (gray_at d ?i)))" if "c < 3" for c
      proof -
        from that True have lt: "?i + c < length d" by simp
        from that have "(?i + c) mod 4 \<noteq> 3" "(?i + c) div 4 = j div 4" by presburger+
        with applyGrayscale_nth [OF lt] have "?g ! (?i + c) = gray_at d ?i" by simp
        with lt len show ?thesis by (simp add: rd_def del: of_nat_unat)
      qed
      from this [of 0] this [of 1] this [of 2] have "gray_at ?g ?i = gray_at d ?i"
        by (intro gray_at_uniform) simp_all
      with lhs rhs show ?thesis by simp
    next
      case False
      then have "gray_at ?g ?i = 0" "gray_at d ?i = 0"
        using len by (simp_all add: gray_at_short)
      with lhs rhs show ?thesis by simp
    qed
  qed
qed

subsection \<open>A pixel on which the rounding shows\<close>

text \<open>
  For the pixel \<open>(0, 80, 110)\<close> the exact weighted sum is \<open>59.5\<close>, which would be stored
  as 60. The binary64 sum is \<open>59.49999999999999\<close>, and the code stores 59.
\<close>

lemma b64_0299: "b64_round (299 / 1000) = Fin (5386305154335113 / 2 ^ 54)"
proof -
  have "b64_round (299 / 1000) = Fin (of_int 5386305154335113 * 2 powi (- 2 - 52))"
    by (rule b64_round_eval) (simp_all add: round_half_even_def Let_def power_int_minus)
  then show ?thesis by (simp add: power_int_minus)
qed

lemma b64_0587: "b64_round (587 / 1000) = Fin (2643612981266481 / 2 ^ 52)"
proof -
  have "b64_round (587 / 1000) = Fin (of_int 5287225962532962 * 2 powi (- 1 - 52))"
    by (rule b64_round_eval) (simp_all add: round_half_even_def Let_def power_int_minus)
  then show ?thesis by (simp add: power_int_minus)
qed

lemma b64_0114: "b64_round (114 / 1000) = Fin (8214565720323785 / 2 ^ 56)"
proof -
  have "b64_round (114 / 1000) = Fin (of_int 8214565720323785 * 2 powi (- 4 - 52))"
    by (rule b64_round_eval) (simp_all add: round_half_even_def Let_def power_int_minus)
  then show ?thesis by (simp add: power_int_minus)
qed

lemma b64_gray_g: "b64_round (80 * (2643612981266481 / 2 ^ 52)) = Fin (3304516226583101 / 2 ^ 46)"
proof -
  have "b64_round (80 * (2643612981266481 / 2 ^ 52)) = Fin (of_int 6609032453166202 * 2 powi (5 - 52))"
    by (rule b64_round_eval) (simp_all add: round_half_even_def Let_def power_int_minus)
  then show ?thesis by (simp add: power_int_minus)
qed

lemma b64_gray_b: "b64_round (110 * (8214565720323785 / 2 ^ 56)) = Fin (7059392415903253 / 2 ^ 49)"
proof -
  have "b64_round (110 * (8214565720323785 / 2 ^ 56)) = Fin (of_int 7059392415903253 * 2 powi (3 - 52))"
    by (rule b64_round_eval) (simp_all add: round_half_even_def Let_def power_int_minus)
  then show ?thesis by (simp add: power_int_minus)
qed

lemma b64_gray_sum: "b64_round (3304516226583101 / 2 ^ 46 + 7059392415903253 / 2 ^ 49) = Fin (8373880557142015 / 2 ^ 47)"
proof -
  have "b64_round (3304516226583101 / 2 ^ 46 + 7059392415903253 / 2 ^ 49) = Fin (of_int 8373880557142015 * 2 powi (5 - 52))"
    by (rule b64_round_eval) (simp_all add: round_half_even_def Let_def power_int_minus)
  then show ?thesis by (simp add: power_int_minus)
qed

lemma gray_example:
  "Fin 0 * js_literal 0.299 + Fin 80 * js_literal 0.587 + Fin 110 * js_literal 0.114
     = Fin (8373880557142015 / 2 ^ 47)"
proof -
  have l: "js_literal 0.299 = Fin (5386305154335113 / 2 ^ 54)"
    "js_literal 0.587 = Fin (2643612981266481 / 2 ^ 52)"
    "js_literal 0.114 = Fin (8214565720323785 / 2 ^ 56)"
    using b64_0299 b64_0587 b64_0114 by (simp_all add: js_literal_def)
  have "Fin 0 * Fin (5386305154335113 / 2 ^ 54) = Fin 0"
    by simp
  moreover have "Fin 80 * Fin (2643612981266481 / 2 ^ 52) = Fin (3304516226583101 / 2 ^ 46)"
    using b64_gray_g by simp
  moreover have "Fin 110 * Fin (8214565720323785 / 2 ^ 56) = Fin (7059392415903253 / 2 ^ 49)"
    using b64_gray_b by simp
  moreover have "Fin 0 + Fin (3304516226583101 / 2 ^ 46) = Fin (3304516226583101 / 2 ^ 46)"
    using b64_round_dyadic [of 3304516226583101 46] by simp
  moreover have "Fin (3304516226583101 / 2 ^ 46) + Fin (7059392415903253 / 2 ^ 49)
      = Fin (8373880557142015 / 2 ^ 47)"
    using b64_gray_sum by simp
  ultimately show ?thesis by (simp only: l)
qed

lemma grayscale_example:
  "applyGrayscale [0, 80, 110, 255] = [59, 59, 59, 255]"
proof -
  have "toUint8Clamp (Fin (8373880557142015 / 2 ^ 47)) = 59"
    by (simp add: round_half_even_def Let_def)
  with gray_example show ?thesis
    by (simp add: applyGrayscale_def for_each_pixel_def pixel_indices_def grayscale_step_def
        wr_def rd_def Let_def del: toUint8Clamp.simps)
qed

section \<open>Convolution keeps alpha\<close>

lemma toUint8Clamp_rd: "i < length d \<Longrightarrow> toUint8Clamp (rd d i) = d ! i"
  by (simp add: rd_def toUint8Clamp_byte del: toUint8Clamp.simps of_nat_unat)

lemma pixel_index_less: "y < m \<Longrightarrow> x < w \<Longrightarrow> y * w + x < m * (w :: nat)"
proof -
  assume "y < m" and "x < w"
  then have "y * w + x < Suc y * w" by simp
  also from \<open>y < m\<close> have "Suc y * w \<le> m * w" by (intro mult_le_mono1) simp
  finally show ?thesis .
qed

lemma row_fold:
  fixes step :: "nat \<Rightarrow> byte list \<Rightarrow> byte list"
  assumes len: "\<forall>x out. length (step x out) = length out"
    and frame: "\<forall>x out j. j < 4 * (b + x) \<or> 4 * (b + x) + 4 \<le> j \<longrightarrow> step x out ! j = out ! j"
    and hit: "\<forall>x out. 4 * (b + x) + 3 < length out \<longrightarrow> step x out ! (4 * (b + x) + 3) = A (b + x)"
  shows "length (fold step [0..<n] out) = length out"
    and "j < 4 * b \<or> 4 * (b + n) \<le> j \<Longrightarrow> fold step [0..<n] out ! j = out ! j"
    and "x < n \<Longrightarrow> 4 * (b + x) + 3 < length out \<Longrightarrow> fold step [0..<n] out ! (4 * (b + x) + 3) = A (b + x)"
proof -
  show l: "length (fold step [0..<n] out) = length out" for n
    by (induction n) (simp_all add: len)
  show f: "j < 4 * b \<or> 4 * (b + n) \<le> j \<Longrightarrow> fold step [0..<n] out ! j = out ! j" for n j
  proof (induction n)
    case 0
    show ?case by simp
  next
    case (Suc n)
    then have "j < 4 * (b + n) \<or> 4 * (b + n) + 4 \<le> j" by auto
    with frame have "step n (fold step [0..<n] out) ! j = fold step [0..<n] out ! j"
      by blast
    moreover from Suc.prems have "j < 4 * b \<or> 4 * (b + n) \<le> j" by auto
    ultimately show ?case using Suc.IH by simp
  qed
  show "x < n \<Longrightarrow> 4 * (b + x) + 3 < length out \<Longrightarrow> fold step [0..<n] out ! (4 * (b + x) + 3) = A (b + x)"
  proof (induction n)
    case 0
    then show ?case by simp
  next
    case (Suc n)
    show ?case
    proof (cases "x = n")
      case True
      from Suc.prems(2) True have "4 * (b + n) + 3 < length (fold step [0..<n] out)"
        by (simp add: l)
      with hit have "step n (fold step [0..<n] out) ! (4 * (b + n) + 3) = A (b + n)"
        by blast
      with True show ?thesis by simp
    next
      case False
      with Suc.prems have "x < n" by simp
      then have "4 * (b + x) + 3 < 4 * (b + n)" by simp
      with frame have "step n (fold step [0..<n] out) ! (4 * (b + x) + 3) = fold step [0..<n] out ! (4 * (b + x) + 3)"
        by blast
      with Suc.IH [OF \<open>x < n\<close> Suc.prems(2)] show ?thesis by simp
    qed
  qed
qed

lemma image_fold:
  fixes step :: "nat \<Rightarrow> nat \<Rightarrow> byte list \<Rightarrow> byte list"
  assumes len: "\<forall>y x out. length (step y x out) = length out"
    and frame: "\<forall>y x out j. j < 4 * (y * w + x) \<or> 4 * (y * w + x) + 4 \<le> j \<longrightarrow> step y x out ! j = out ! j"
    and hit: "\<forall>y x out. 4 * (y * w + x) + 3 < length out \<longrightarrow> step y x out ! (4 * (y * w + x) + 3) = A (y * w + x)"
  shows "length (fold (\<lambda>y. fold (step y) [0..<w]) [0..<m] out) = length out"
    and "y < m \<Longrightarrow> x < w \<Longrightarrow> 4 * (y * w + x) + 3 < length out
         \<Longrightarrow> fold (\<lambda>y. fold (step y) [0..<w]) [0..<m] out ! (4 * (y * w + x) + 3) = A (y * w + x)"
proof -
  let ?rows = "\<lambda>m. fold (\<lambda>y. fold (step y) [0..<w]) [0..<m] out"
  have a1: "\<forall>x out. length (step y x out) = length out" for y
    using len by blast
  have a2: "\<forall>x out j. j < 4 * (y * w + x) \<or> 4 * (y * w + x) + 4 \<le> j \<longrightarrow> step y x out ! j = out ! j" for y
    using frame by blast
  have a3: "\<forall>x out. 4 * (y * w + x) + 3 < length out \<longrightarrow> step y x out ! (4 * (y * w + x) + 3) = A (y * w + x)" for y
    using hit by blast
  note row = row_fold [of "step y" "y * w" A for y, OF a1 a2 a3]
  show l: "length (?rows m) = length out" for m
    by (induction m) (simp_all add: row(1))
  show "y < m \<Longrightarrow> x < w \<Longrightarrow> 4 * (y * w + x) + 3 < length out
         \<Longrightarrow> ?rows m ! (4 * (y * w + x) + 3) = A (y * w + x)"
  proof (induction m)
    case 0
    then show ?case by simp
  next
    case (Suc m)
    have s: "?rows (Suc m) = fold (step m) [0..<w] (?rows m)" by simp
    show ?case
    proof (cases "y = m")
      case True
      from Suc.prems(3) have "4 * (m * w + x) + 3 < length (?rows m)"
        using True by (simp add: l)
      with Suc.prems(2) have "fold (step m) [0..<w] (?rows m) ! (4 * (m * w + x) + 3) = A (m * w + x)"
        by (rule row(3))
      with True show ?thesis unfolding s by simp
    next
      case False
      with Suc.prems have "y < m" by simp
      with Suc.prems have "y * w + x < m * w" by (intro pixel_index_less)
      then have "4 * (y * w + x) + 3 < 4 * (m * w) \<or> 4 * (m * w + w) \<le> 4 * (y * w + x) + 3" by simp
      then have "fold (step m) [0..<w] (?rows m) ! (4 * (y * w + x) + 3) = ?rows m ! (4 * (y * w + x) + 3)"
        by (rule row(2))
      with Suc.IH [OF \<open>y < m\<close> Suc.prems(2,3)] show ?thesis unfolding s by simp
    qed
  qed
qed

lemma conv_pixel_eq:
  "\<exists>r g b. conv_pixel d w h kern ks half y x out
     = out[(y * w + x) * 4 := r, (y * w + x) * 4 + 1 := g, (y * w + x) * 4 + 2 := b,
           (y * w + x) * 4 + 3 := toUint8Clamp (rd d ((y * w + x) * 4 + 3))]"
  by (auto simp add: conv_pixel_def wr_def Let_def split: prod.splits)

lemma conv_pixel_length: "length (conv_pixel d w h kern ks half y x out) = length out"
  using conv_pixel_eq [of d w h kern ks half y x out] by auto

lemma conv_pixel_frame:
  "j < 4 * (y * w + x) \<or> 4 * (y * w + x) + 4 \<le> j
   \<Longrightarrow> conv_pixel d w h kern ks half y x out ! j = out ! j"
  using conv_pixel_eq [of d w h kern ks half y x out] by (auto simp add: mult.commute)

lemma conv_pixel_alpha:
  "4 * (y * w + x) + 3 < length out
   \<Longrightarrow> conv_pixel d w h kern ks half y x out ! (4 * (y * w + x) + 3)
       = toUint8Clamp (rd d (4 * (y * w + x) + 3))"
  using conv_pixel_eq [of d w h kern ks half y x out] by (auto simp add: mult.commute)

lemma applyConvolution_alpha:
  assumes wf: "wf_image img" and x: "x < width img" and y: "y < height img"
  shows "\<exists>out. applyConvolution img kern ks = Inr out \<and> width out = width img
           \<and> height out = height img \<and> alpha_at out x y = alpha_at img x y"
proof -
  let ?d = "data img" and ?w = "width img" and ?h = "height img"
  let ?step = "conv_pixel ?d ?w ?h kern ks (ks div 2)"
  let ?out = "fold (\<lambda>y. fold (?step y) [0..<?w]) [0..<?h] (replicate (length ?d) 0)"
  have a1: "\<forall>y x out. length (?step y x out) = length out"
    by (simp add: conv_pixel_length)
  have a2: "\<forall>y x out j. j < 4 * (y * ?w + x) \<or> 4 * (y * ?w + x) + 4 \<le> j
              \<longrightarrow> ?step y x out ! j = out ! j"
    using conv_pixel_frame by blast
  have a3: "\<forall>y x out. 4 * (y * ?w + x) + 3 < length out
              \<longrightarrow> ?step y x out ! (4 * (y * ?w + x) + 3) = toUint8Clamp (rd ?d (4 * (y * ?w + x) + 3))"
    using conv_pixel_alpha by blast
  note img = image_fold [of ?step ?w "\<lambda>p. toUint8Clamp (rd ?d (4 * p + 3))", OF a1 a2 a3]
  have len: "length ?out = length ?d"
    by (simp add: img(1))
  from y x have "y * ?w + x < ?h * ?w" by (rule pixel_index_less)
  with wf have lt: "4 * (y * ?w + x) + 3 < length ?d"
    by (simp add: wf_image_def mult.commute)
  then have "4 * (y * ?w + x) + 3 < length (replicate (length ?d) (0 :: byte))"
    by simp
  with y x have "?out ! (4 * (y * ?w + x) + 3) = toUint8Clamp (rd ?d (4 * (y * ?w + x) + 3))"
    by (rule img(2))
  also have "\<dots> = ?d ! (4 * (y * ?w + x) + 3)"
    using lt by (rule toUint8Clamp_rd)
  finally have a: "?out ! (4 * (y * ?w + x) + 3) = ?d ! (4 * (y * ?w + x) + 3)" .
  have "applyConvolution img kern ks = Inr \<lparr> data = ?out, width = ?w, height = ?h \<rparr>"
    using wf len by (simp add: applyConvolution_def new_ImageData_def wf_image_def Let_def)
  with a show ?thesis
    by (simp add: alpha_at_def mult.commute)
qed

text \<open>
  C8. Sharpen, emboss and edge-detect return an image of the same dimensions in which
  the alpha byte of every pixel is the alpha byte of that pixel in the source.
\<close>

theorem convolution_filters_keep_alpha:
  assumes "wf_image imageData" and "x < width imageData" and "y < height imageData"
  shows "(\<exists>out. applySharpenFilter imageData = Inr out \<and> width out = width imageData
            \<and> height out = height imageData \<and> alpha_at out x y = alpha_at imageData x y)
       \<and> (\<exists>out. applyEmbossFilter imageData = Inr out \<and> width out = width imageData
            \<and> height out = height imageData \<and> alpha_at out x y = alpha_at imageData x y)
       \<and> (\<exists>out. applyEdgeDetectFilter imageData = Inr out \<and> width out = width imageData
            \<and> height out = height imageData \<and> alpha_at out x y = alpha_at imageData x y)"
  unfolding applySharpenFilter_def applyEmbossFilter_def applyEdgeDetectFilter_def
  using applyConvolution_alpha [OF assms] by blast

theorem convolution_filters_keep_alpha_witness:
  "wf_image two_pixels \<and> 1 < width two_pixels \<and> 0 < height two_pixels
   \<and> (\<exists>out. applySharpenFilter two_pixels = Inr out \<and> alpha_at out 1 0 = 128)
   \<and> (\<exists>out. applyEmbossFilter two_pixels = Inr out \<and> alpha_at out 1 0 = 128)
   \<and> (\<exists>out. applyEdgeDetectFilter two_pixels = Inr out \<and> alpha_at out 1 0 = 128)"
proof -
  have w: "wf_image two_pixels" by (simp add: wf_image_def two_pixels_def)
  have x: "1 < width two_pixels" by (simp add: two_pixels_def)
  have y: "0 < height two_pixels" by (simp add: two_pixels_def)
  have a: "alpha_at two_pixels 1 0 = 128" by (simp add: alpha_at_def two_pixels_def)
  from convolution_filters_keep_alpha [OF w x y] w x y show ?thesis
    unfolding a by blast
qed


section \<open>Oil painting: the chosen bucket is not empty\<close>

lemma clamp_coord_less: "0 < n \<Longrightarrow> clamp_coord n v < n"
  by (auto simp add: clamp_coord_def)

lemma sample_index_less:
  assumes "wf_image img" and "px < width img" and "py < height img" and "c < 4"
  shows "(py * width img + px) * 4 + c < length (data img)"
proof -
  from assms(3,2) have "py * width img + px < height img * width img"
    by (rule pixel_index_less)
  with assms(1,4) show ?thesis
    by (simp add: wf_image_def mult.commute)
qed


lemma b64_round_bounded_nonneg:
  assumes "0 \<le> x" and "x < 2 ^ k" and "k \<le> 1023"
  shows "b64_round x = Fin (b64_nearest x)"
  using assms by (intro b64_round_bounded [of x k]) simp_all

lemma oil_intensity_bucket:
  assumes L: "0 < L" "L < 2 ^ 32"
  shows "\<exists>i<L. oil_intensity L (Fin (real (unat (r :: byte)))) (Fin (real (unat (g :: byte))))
                   (Fin (real (unat (b :: byte)))) = Fin (real i)"
proof -
  define s where "s = unat r + unat g + unat b"
  have "unat r < 256" "unat g < 256" "unat b < 256"
    using unsigned_less [of r] unsigned_less [of g] unsigned_less [of b] by simp_all
  then have s: "s \<le> 765" by (simp add: s_def)
  have "b64_round (real (unat r + unat g)) = Fin (real (unat r + unat g))"
    using \<open>unat r < 256\<close> \<open>unat g < 256\<close> by (intro b64_round_nat) simp
  then have s1: "Fin (real (unat r)) + Fin (real (unat g)) = Fin (real (unat r + unat g))"
    by (simp del: of_nat_unat)
  have "b64_round (real s) = Fin (real s)"
    using s by (intro b64_round_nat) simp
  then have s2: "Fin (real (unat r + unat g)) + Fin (real (unat b)) = Fin (real s)"
    by (simp add: s_def del: of_nat_unat of_nat_add) (simp add: s_def)
  define t where "t = b64_nearest (real s / 3)"
  have "b64_round (real s / 3) = Fin t"
    unfolding t_def using s by (intro b64_round_bounded_nonneg [of _ 20]) simp_all
  then have q1: "Fin (real s) / Fin 3 = Fin t" by simp
  have t0: "0 \<le> t"
    unfolding t_def by (rule b64_nearest_nonneg) simp
  have "b64_nearest (real s / 3) \<le> b64_nearest (real (255 :: nat))"
    using s by (intro b64_nearest_mono) simp
  then have t1: "t \<le> 255"
    unfolding t_def using b64_nearest_nat [of 255] by simp
  define m where "m = real L - 1"
  from L have m: "0 \<le> m" "m < 2 ^ 32" by (simp_all add: m_def)
  have "\<bar>int L - 1\<bar> < 2 ^ 53" using L by simp
  from b64_round_int [OF this] have "b64_round (real L - 1) = Fin m"
    by (simp add: m_def)
  then have q2: "Fin (real L) - Fin 1 = Fin m"
    by (simp add: minus_jsnum_def)
  have mm: "b64_nearest m = m" "b64_nearest (255 * m) = 255 * m"
  proof -
    have "\<bar>int L - 1\<bar> < 2 ^ 53" "\<bar>255 * (int L - 1)\<bar> < 2 ^ 53" using L by simp_all
    from b64_nearest_int [OF this(1)] b64_nearest_int [OF this(2)]
    show "b64_nearest m = m" "b64_nearest (255 * m) = 255 * m"
      by (simp_all add: m_def)
  qed
  define u where "u = b64_nearest (t * m)"
  have tm: "0 \<le> t * m" "t * m \<le> 255 * m"
    using t0 t1 m by (simp_all add: mult_right_mono)
  with m have "t * m < 2 ^ 41" by simp
  with tm have "b64_round (t * m) = Fin u"
    unfolding u_def by (intro b64_round_bounded_nonneg [of _ 41]) simp_all
  then have q3: "Fin t * Fin m = Fin u" by simp
  have u0: "0 \<le> u"
    unfolding u_def using tm by (intro b64_nearest_nonneg)
  have u1: "u \<le> 255 * m"
    unfolding u_def using b64_nearest_mono [OF tm(2)] mm by simp
  define v where "v = b64_nearest (u / 255)"
  have um: "0 \<le> u / 255" "u / 255 \<le> m"
    using u0 u1 by simp_all
  with m have "u / 255 < 2 ^ 41" by simp
  with um have "b64_round (u / 255) = Fin v"
    unfolding v_def by (intro b64_round_bounded_nonneg [of _ 41]) simp_all
  then have q4: "Fin u / Fin 255 = Fin v" by simp
  have v0: "0 \<le> v"
    unfolding v_def using um by (intro b64_nearest_nonneg)
  have v1: "v \<le> m"
    unfolding v_def using b64_nearest_mono [OF um(2)] mm by simp
  from v0 have f0: "0 \<le> \<lfloor>v\<rfloor>" by simp
  have "real_of_int \<lfloor>v\<rfloor> \<le> v" by simp
  with v1 have "real_of_int \<lfloor>v\<rfloor> \<le> real L - 1" unfolding m_def by linarith
  then have "\<lfloor>v\<rfloor> < int L" by linarith
  with f0 have i: "nat \<lfloor>v\<rfloor> < L" by (simp only: nat_less_iff)
  from f0 have "real_of_int \<lfloor>v\<rfloor> = real (nat \<lfloor>v\<rfloor>)" by simp
  then have "oil_intensity L (Fin (real (unat r))) (Fin (real (unat g))) (Fin (real (unat b)))
               = Fin (real (nat \<lfloor>v\<rfloor>))"
    unfolding oil_intensity_def s1 s2 q1 q2 q3 q4 by simp
  with i show ?thesis by blast
qed

lemma count_step:
  assumes "0 \<le> c" and "c \<le> 2 ^ 60"
  shows "\<exists>c'. Fin c + Fin 1 = Fin c' \<and> 1 \<le> c' \<and> c' \<le> 2 ^ 60"
proof -
  from assms have "b64_round (c + 1) = Fin (b64_nearest (c + 1))"
    by (intro b64_round_bounded_nonneg [of _ 61]) simp_all
  moreover have "b64_nearest 1 \<le> b64_nearest (c + 1)"
    using assms by (intro b64_nearest_mono) simp
  then have "1 \<le> b64_nearest (c + 1)"
    using b64_nearest_nat [of 1] by simp
  moreover have "b64_nearest (c + 1) \<le> b64_nearest (2 ^ 60 + 1)"
    using assms by (intro b64_nearest_mono) simp
  then have "b64_nearest (c + 1) \<le> 2 ^ 60"
    using b64_nearest_absorb [of 60 1] by simp
  ultimately show ?thesis by simp
qed

lemma sum_step:
  assumes "0 \<le> s" and "s \<le> 2 ^ 70" and "0 \<le> r" and "r \<le> 255"
  shows "\<exists>s'. Fin s + Fin r = Fin s' \<and> 0 \<le> s' \<and> s' \<le> 2 ^ 70"
proof -
  from assms have "b64_round (s + r) = Fin (b64_nearest (s + r))"
    by (intro b64_round_bounded_nonneg [of _ 71]) simp_all
  moreover have "0 \<le> b64_nearest (s + r)"
    using assms by (intro b64_nearest_nonneg) simp
  moreover have "b64_nearest (s + r) \<le> b64_nearest (2 ^ 70 + 255)"
    using assms by (intro b64_nearest_mono) simp
  then have "b64_nearest (s + r) \<le> 2 ^ 70"
    using b64_nearest_absorb [of 70 255] by simp
  ultimately show ?thesis by simp
qed

lemma quotient_finite:
  assumes "0 \<le> s" and "s \<le> 2 ^ 70" and "1 \<le> c"
  shows "\<exists>v. Fin s / Fin c = Fin v"
proof -
  from assms have "s * 1 \<le> s * c"
    by (intro mult_left_mono) simp_all
  with assms have "0 \<le> s / c" "s / c \<le> s"
    by (simp_all add: divide_le_eq)
  with assms have "b64_round (s / c) = Fin (b64_nearest (s / c))"
    by (intro b64_round_bounded_nonneg [of _ 71]) simp_all
  with assms show ?thesis by simp
qed


lemma new_Array_fill_at:
  assumes "new_Array_fill n v = Inr arr" and "i < n"
  shows "arr (Fin (real i)) = Some v"
  using assms by (auto simp add: new_Array_fill_def split: if_splits)

lemma oil_tables_ok_init:
  assumes "new_Array_fill L (Fin 0) = Inr zeros"
  shows "oil_tables_ok L (zeros, zeros, zeros, zeros)"
  using new_Array_fill_at [OF assms] by (simp add: oil_tables_ok_def)

lemma oil_sample_ok:
  assumes wf: "wf_image img" and L: "0 < L" "L < 2 ^ 32"
    and ok: "oil_tables_ok L tables"
  shows "oil_tables_ok L (oil_sample (data img) (width img) (height img) L x y ky kx tables)
       \<and> oil_some_count L (oil_sample (data img) (width img) (height img) L x y ky kx tables)"
proof -
  obtain cnt aR aG aB where tables: "tables = (cnt, aR, aG, aB)"
    by (cases tables) auto
  let ?d = "data img" and ?w = "width img" and ?h = "height img"
  define px where "px = clamp_coord ?w (int x + kx)"
  define py where "py = clamp_coord ?h (int y + ky)"
  define idx where "idx = (py * ?w + px) * 4"
  from wf have "px < ?w" "py < ?h"
    by (simp_all add: px_def py_def wf_image_def clamp_coord_less)
  then have "idx + c < length ?d" if "c < 4" for c
    unfolding idx_def using wf that by (intro sample_index_less)
  from this [of 0] this [of 1] this [of 2]
  have rd: "rd ?d idx = Fin (real (unat (?d ! idx)))"
    "rd ?d (idx + 1) = Fin (real (unat (?d ! (idx + 1))))"
    "rd ?d (idx + 2) = Fin (real (unat (?d ! (idx + 2))))"
    by (simp_all add: rd_def del: of_nat_unat)
  have byte: "0 \<le> real (unat v)" "real (unat v) \<le> 255" for v :: byte
  proof -
    have "unat v < 256" using unsigned_less [of v] by simp
    then show "0 \<le> real (unat v)" "real (unat v) \<le> 255"
      by (simp_all del: of_nat_unat)
  qed
  obtain k where k: "k < L"
    and int: "oil_intensity L (rd ?d idx) (rd ?d (idx + 1)) (rd ?d (idx + 2)) = Fin (real k)"
    unfolding rd using oil_intensity_bucket [OF L] by blast
  let ?K = "Fin (real k)"
  have res: "oil_sample ?d ?w ?h L x y ky kx tables
      = (cnt(?K \<mapsto> aget cnt ?K + Fin 1), aR(?K \<mapsto> aget aR ?K + rd ?d idx),
         aG(?K \<mapsto> aget aG ?K + rd ?d (idx + 1)), aB(?K \<mapsto> aget aB ?K + rd ?d (idx + 2)))"
    using int by (simp add: oil_sample_def tables Let_def px_def py_def idx_def)
  from ok k obtain c sr sg sb where at:
    "cnt ?K = Some (Fin c)" "0 \<le> c" "c \<le> 2 ^ 60"
    "aR ?K = Some (Fin sr)" "0 \<le> sr" "sr \<le> 2 ^ 70"
    "aG ?K = Some (Fin sg)" "0 \<le> sg" "sg \<le> 2 ^ 70"
    "aB ?K = Some (Fin sb)" "0 \<le> sb" "sb \<le> 2 ^ 70"
    unfolding oil_tables_ok_def tables by auto
  from count_step [OF at(2,3)] obtain c' where
    c: "aget cnt ?K + Fin 1 = Fin c'" "1 \<le> c'" "c' \<le> 2 ^ 60"
    by (auto simp add: aget_def at)
  from sum_step [OF at(5,6) byte] obtain sr' where
    r: "aget aR ?K + rd ?d idx = Fin sr'" "0 \<le> sr'" "sr' \<le> 2 ^ 70"
    unfolding rd aget_def at by auto
  from sum_step [OF at(8,9) byte] obtain sg' where
    g: "aget aG ?K + rd ?d (idx + 1) = Fin sg'" "0 \<le> sg'" "sg' \<le> 2 ^ 70"
    unfolding rd aget_def at by auto
  from sum_step [OF at(11,12) byte] obtain sb' where
    b: "aget aB ?K + rd ?d (idx + 2) = Fin sb'" "0 \<le> sb'" "sb' \<le> 2 ^ 70"
    unfolding rd aget_def at by auto
  from c have c0: "0 \<le> c'" by simp
  have "oil_tables_ok L (oil_sample ?d ?w ?h L x y ky kx tables)"
    unfolding res c(1) r(1) g(1) b(1) oil_tables_ok_def
    using ok c0 c(3) r(2,3) g(2,3) b(2,3)
    by (auto simp add: oil_tables_ok_def tables)
  moreover have "oil_some_count L (oil_sample ?d ?w ?h L x y ky kx tables)"
    unfolding res c(1) oil_some_count_def using k c(2)
    by (intro exI [of _ k] conjI exI [of _ c']) simp_all
  ultimately show ?thesis by simp
qed

lemma fold_inv_last:
  assumes step: "\<forall>a s. I s \<longrightarrow> I (f a s) \<and> P (f a s)"
    and "xs \<noteq> []" and "I s"
  shows "I (fold f xs s) \<and> P (fold f xs s)"
  using assms(2,3)
proof (induction xs arbitrary: s rule: rev_induct)
  case Nil
  then show ?case by simp
next
  case (snoc a xs)
  have "I (fold f xs s)"
  proof (cases "xs = []")
    case True
    with snoc.prems show ?thesis by simp
  next
    case False
    with snoc.IH snoc.prems show ?thesis by simp
  qed
  with step show ?case by simp
qed

lemma oil_buckets_ok:
  assumes wf: "wf_image img" and L: "0 < L" "L < 2 ^ 32" and r: "0 \<le> radius"
  shows "\<exists>tables. oil_buckets (data img) (width img) (height img) radius L x y = Inr tables
           \<and> oil_tables_ok L tables \<and> oil_some_count L tables"
proof -
  let ?sample = "oil_sample (data img) (width img) (height img) L x y"
  from L(2) obtain zeros where z: "new_Array_fill L (Fin 0) = Inr zeros"
    by (simp add: new_Array_fill_def)
  from r have ne: "[- radius..radius] \<noteq> []" by simp
  have inner: "\<forall>ky s. oil_tables_ok L s \<longrightarrow>
      oil_tables_ok L (fold (?sample ky) [- radius..radius] s)
      \<and> oil_some_count L (fold (?sample ky) [- radius..radius] s)"
  proof (intro allI impI)
    fix ky s
    assume s: "oil_tables_ok L s"
    have "\<forall>kx s. oil_tables_ok L s \<longrightarrow> oil_tables_ok L (?sample ky kx s) \<and> oil_some_count L (?sample ky kx s)"
      using oil_sample_ok [OF wf L] by blast
    from this ne s show "oil_tables_ok L (fold (?sample ky) [- radius..radius] s)
      \<and> oil_some_count L (fold (?sample ky) [- radius..radius] s)"
      by (rule fold_inv_last)
  qed
  from inner ne oil_tables_ok_init [OF z]
  have "oil_tables_ok L (fold (\<lambda>ky. fold (?sample ky) [- radius..radius]) [- radius..radius]
                             (zeros, zeros, zeros, zeros))
      \<and> oil_some_count L (fold (\<lambda>ky. fold (?sample ky) [- radius..radius]) [- radius..radius]
                             (zeros, zeros, zeros, zeros))"
    by (rule fold_inv_last)
  then show ?thesis
    by (simp add: oil_buckets_def z)
qed

lemma oil_maxIndex_upto:
  assumes c: "\<forall>i<L. aget cnt (Fin (real i)) = Fin (c i)"
  shows "Suc k \<le> L \<Longrightarrow>
         fold (\<lambda>i maxIndex. if js_greater (aget cnt (Fin (real i))) (aget cnt (Fin (real maxIndex)))
                                then i else maxIndex) [1..<Suc k] 0 \<le> k
       \<and> (\<forall>i\<le>k. c i \<le> c (fold (\<lambda>i maxIndex. if js_greater (aget cnt (Fin (real i))) (aget cnt (Fin (real maxIndex)))
                                then i else maxIndex) [1..<Suc k] 0))"
proof (induction k)
  case 0
  show ?case by simp
next
  case (Suc k)
  let ?f = "\<lambda>i maxIndex. if js_greater (aget cnt (Fin (real i))) (aget cnt (Fin (real maxIndex)))
                                then i else maxIndex"
  let ?m = "fold ?f [1..<Suc k] 0"
  from Suc have m: "?m \<le> k" and mx: "\<forall>i\<le>k. c i \<le> c ?m" by simp_all
  from Suc.prems m have lt: "?m < L" "Suc k < L" by simp_all
  have s: "fold ?f [1..<Suc (Suc k)] 0 = ?f (Suc k) ?m" by simp
  have g: "js_greater (aget cnt (Fin (real (Suc k)))) (aget cnt (Fin (real ?m))) \<longleftrightarrow> c ?m < c (Suc k)"
    using c lt by (simp add: js_greater_def del: of_nat_Suc upt_Suc)
  show ?case
  proof (cases "c ?m < c (Suc k)")
    case True
    with g have e: "?f (Suc k) ?m = Suc k" by (simp del: upt_Suc of_nat_Suc)
    have "\<forall>i\<le>Suc k. c i \<le> c (Suc k)"
    proof (intro allI impI)
      fix i assume "i \<le> Suc k"
      then consider "i = Suc k" | "i \<le> k" by linarith
      then show "c i \<le> c (Suc k)"
        using mx True by cases auto
    qed
    then show ?thesis unfolding s e by simp
  next
    case False
    with g have e: "?f (Suc k) ?m = ?m" by (simp del: upt_Suc of_nat_Suc)
    have "\<forall>i\<le>Suc k. c i \<le> c ?m"
    proof (intro allI impI)
      fix i assume "i \<le> Suc k"
      then consider "i = Suc k" | "i \<le> k" by linarith
      then show "c i \<le> c ?m"
        using mx False by cases auto
    qed
    with m show ?thesis unfolding s e by simp
  qed
qed

lemma oil_maxIndex_max:
  assumes c: "\<forall>i<L. aget cnt (Fin (real i)) = Fin (c i)" and L: "0 < L"
  shows "oil_maxIndex cnt L < L \<and> (\<forall>i<L. c i \<le> c (oil_maxIndex cnt L))"
proof -
  from L obtain k where k: "L = Suc k" by (cases L) auto
  from oil_maxIndex_upto [OF c, of k] k show ?thesis
    by (auto simp add: oil_maxIndex_def simp del: upt_Suc)
qed

text \<open>
  C10. On a well-formed image, with a radius that is not negative and a number of levels
  from 1 that \<open>new Array\<close> accepts, for every destination pixel the tables are built
  without an exception, the bucket that the argmax loop selects holds a count of at
  least 1, and the three quotients the filter stores are finite numbers: no division by
  zero.
\<close>

theorem oil_max_bucket_nonempty:
  assumes "wf_image imageData" and "0 \<le> radius" and "0 < intensityLevels"
    and "intensityLevels < 2 ^ 32"
  shows "\<exists>intensityCount avgR avgG avgB.
           oil_buckets (data imageData) (width imageData) (height imageData) radius
             intensityLevels x y = Inr (intensityCount, avgR, avgG, avgB)
           \<and> (let maxIndex = Fin (real (oil_maxIndex intensityCount intensityLevels))
              in (\<exists>c. 1 \<le> c \<and> aget intensityCount maxIndex = Fin c)
                 \<and> (\<exists>v. aget avgR maxIndex / aget intensityCount maxIndex = Fin v)
                 \<and> (\<exists>v. aget avgG maxIndex / aget intensityCount maxIndex = Fin v)
                 \<and> (\<exists>v. aget avgB maxIndex / aget intensityCount maxIndex = Fin v))"
proof -
  let ?L = intensityLevels
  from oil_buckets_ok [OF assms(1,3,4,2), of x y]
  obtain cnt aR aG aB where t: "oil_buckets (data imageData) (width imageData) (height imageData)
        radius ?L x y = Inr (cnt, aR, aG, aB)"
    and ok: "oil_tables_ok ?L (cnt, aR, aG, aB)" and some: "oil_some_count ?L (cnt, aR, aG, aB)"
    by (metis prod_cases4)
  from ok have "\<forall>i. \<exists>c. i < ?L \<longrightarrow> cnt (Fin (real i)) = Some (Fin c)"
    unfolding oil_tables_ok_def by auto
  then have "\<exists>c :: nat \<Rightarrow> real. \<forall>i. i < ?L \<longrightarrow> cnt (Fin (real i)) = Some (Fin (c i))"
    by (rule choice)
  then obtain c :: "nat \<Rightarrow> real"
    where c: "\<forall>i. i < ?L \<longrightarrow> cnt (Fin (real i)) = Some (Fin (c i))"
    by blast
  then have c': "\<forall>i<?L. aget cnt (Fin (real i)) = Fin (c i)"
    by (simp add: aget_def)
  let ?m = "oil_maxIndex cnt ?L"
  from oil_maxIndex_max [OF c' assms(3)]
  have m: "?m < ?L" and mx: "\<forall>i<?L. c i \<le> c ?m" by simp_all
  from some c obtain i where "i < ?L" "1 \<le> c i"
    unfolding oil_some_count_def by auto
  with mx have pos: "1 \<le> c ?m" by fastforce
  from c' m have cm: "aget cnt (Fin (real ?m)) = Fin (c ?m)" by simp
  from ok m obtain sr sg sb where
    "aR (Fin (real ?m)) = Some (Fin sr)" "0 \<le> sr" "sr \<le> 2 ^ 70"
    "aG (Fin (real ?m)) = Some (Fin sg)" "0 \<le> sg" "sg \<le> 2 ^ 70"
    "aB (Fin (real ?m)) = Some (Fin sb)" "0 \<le> sb" "sb \<le> 2 ^ 70"
    unfolding oil_tables_ok_def by auto
  then have av: "\<exists>v. aget aR (Fin (real ?m)) / Fin (c ?m) = Fin v"
    "\<exists>v. aget aG (Fin (real ?m)) / Fin (c ?m) = Fin v"
    "\<exists>v. aget aB (Fin (real ?m)) / Fin (c ?m) = Fin v"
    using pos by (simp_all only: aget_def option.case quotient_finite)
  show ?thesis
    using t pos av by (simp add: Let_def cm)
qed

theorem oil_max_bucket_nonempty_witness:
  "wf_image one_pixel \<and> (0 :: int) \<le> 7 \<and> (0 :: nat) < 55 \<and> (55 :: nat) < 2 ^ 32
   \<and> (\<exists>intensityCount avgR avgG avgB.
         oil_buckets (data one_pixel) (width one_pixel) (height one_pixel) 7 55 0 0
           = Inr (intensityCount, avgR, avgG, avgB)
         \<and> (let maxIndex = Fin (real (oil_maxIndex intensityCount 55))
            in (\<exists>c. 1 \<le> c \<and> aget intensityCount maxIndex = Fin c)
               \<and> (\<exists>v. aget avgR maxIndex / aget intensityCount maxIndex = Fin v)
               \<and> (\<exists>v. aget avgG maxIndex / aget intensityCount maxIndex = Fin v)
               \<and> (\<exists>v. aget avgB maxIndex / aget intensityCount maxIndex = Fin v)))"
proof -
  have w: "wf_image one_pixel"
    by (simp add: wf_image_def one_pixel_def)
  have r: "(0 :: int) \<le> 7" and l: "(0 :: nat) < 55" and u: "(55 :: nat) < 2 ^ 32"
    by simp_all
  from w r l u oil_max_bucket_nonempty [OF w r l u, of 0 0] show ?thesis
    by (intro conjI)
qed

subsection \<open>A sample on which the rounding shows\<close>

text \<open>
  With 55 levels the sample \<open>(141, 142, 142)\<close>, whose sum is 425, has the exact
  intensity \<open>425 / 3 * 54 / 255 = 30\<close>. The binary64 operations give
  \<open>29.999999999999996\<close>, and the code counts the sample in bucket 29.
\<close>

lemma b64_oil_third: "b64_round (425 / 3) = Fin (4984452712584533 / 2 ^ 45)"
proof -
  have "b64_round (425 / 3) = Fin (of_int 4984452712584533 * 2 powi (7 - 52))"
    by (rule b64_round_eval) (simp_all add: round_half_even_def Let_def power_int_minus)
  then show ?thesis by (simp add: power_int_minus)
qed

lemma b64_oil_scaled: "b64_round (4984452712584533 / 2 ^ 45 * 54) = Fin (8411263952486399 / 2 ^ 40)"
proof -
  have "b64_round (4984452712584533 / 2 ^ 45 * 54) = Fin (of_int 8411263952486399 * 2 powi (12 - 52))"
    by (rule b64_round_eval) (simp_all add: round_half_even_def Let_def power_int_minus)
  then show ?thesis by (simp add: power_int_minus)
qed

lemma b64_oil_bucket: "b64_round (8411263952486399 / 2 ^ 40 / 255) = Fin (8444249301319679 / 2 ^ 48)"
proof -
  have "b64_round (8411263952486399 / 2 ^ 40 / 255) = Fin (of_int 8444249301319679 * 2 powi (4 - 52))"
    by (rule b64_round_eval) (simp_all add: round_half_even_def Let_def power_int_minus)
  then show ?thesis by (simp add: power_int_minus)
qed

lemma oil_intensity_example:
  "oil_intensity 55 (Fin 141) (Fin 142) (Fin 142) = Fin 29"
proof -
  have "Fin 141 + Fin 142 + Fin 142 = Fin 425"
    by simp
  moreover have "Fin 425 / Fin 3 = Fin (4984452712584533 / 2 ^ 45)"
    using b64_oil_third by simp
  moreover have "Fin (real 55) - Fin 1 = Fin 54"
    by (simp add: minus_jsnum_def)
  moreover have "Fin (4984452712584533 / 2 ^ 45) * Fin 54 = Fin (8411263952486399 / 2 ^ 40)"
    using b64_oil_scaled by simp
  moreover have "Fin (8411263952486399 / 2 ^ 40) / Fin 255 = Fin (8444249301319679 / 2 ^ 48)"
    using b64_oil_bucket by simp
  moreover have "Math_floor (Fin (8444249301319679 / 2 ^ 48)) = Fin 29"
    by simp
  ultimately show ?thesis by (simp only: oil_intensity_def)
qed

end
